theory Spec2Isabelle
  imports Main
begin

section \<open>The Go library functions the cookbook package calls\<close>

text \<open>
  The package works on Go strings (byte sequences, here \<open>string\<close>) with
  \<^verbatim>\<open>strings.Split\<close>, \<^verbatim>\<open>strconv.Atoi\<close> and \<^verbatim>\<open>fmt.Sprintf("%d")\<close>.  They belong to the
  Go standard library; they are written out here as the library documents them, for a
  64-bit \<^verbatim>\<open>int\<close>.
\<close>

subsection \<open>strings.Split\<close>

text \<open>
  \<^verbatim>\<open>strings.Split(s, sep)\<close> cuts \<open>s\<close> at every non-overlapping occurrence of \<open>sep\<close>,
  scanning from the left; the result always has at least one element.  With an empty
  separator it cuts after every byte (every UTF-8 sequence in Go; the package never
  passes an empty separator).
\<close>

function split_go :: "string \<Rightarrow> string \<Rightarrow> string \<Rightarrow> string list" where
  "split_go sep acc [] = [rev acc]"
| "split_go sep acc (c # cs) =
     (if sep \<noteq> [] \<and> take (length sep) (c # cs) = sep
      then rev acc # split_go sep [] (drop (length sep) (c # cs))
      else split_go sep (c # acc) cs)"
  by pat_completeness auto
termination
  by (relation "measure (\<lambda>(sep, acc, s). length s)") auto

definition Split :: "string \<Rightarrow> string \<Rightarrow> string list" where
  "Split s sep = (if sep = [] then map (\<lambda>c. [c]) s else split_go sep [] s)"

subsection \<open>strconv.Atoi\<close>

datatype num_error = ErrSyntax | ErrRange

definition is_digit :: "char \<Rightarrow> bool" where
  "is_digit d \<longleftrightarrow> (48::nat) \<le> of_char d \<and> of_char d \<le> (57::nat)"

definition digit_val :: "char \<Rightarrow> nat" where
  "digit_val d = of_char d - 48"

definition maxUint64 :: nat where
  "maxUint64 = 18446744073709551615"

text \<open>
  The digit loop of \<^verbatim>\<open>strconv.ParseUint(s, 10, 64)\<close>: a byte that is no decimal digit
  is a syntax error with value 0; an overflow of the unsigned 64-bit accumulator stops the
  scan at once with the largest value and a range error.
\<close>

fun parse_digits :: "nat \<Rightarrow> string \<Rightarrow> nat \<times> num_error option" where
  "parse_digits n [] = (n, None)"
| "parse_digits n (d # ds) =
     (if \<not> is_digit d then (0, Some ErrSyntax)
      else if n \<ge> maxUint64 div 10 + 1 then (maxUint64, Some ErrRange)
      else if n * 10 + digit_val d > maxUint64 then (maxUint64, Some ErrRange)
      else parse_digits (n * 10 + digit_val d) ds)"

definition ParseUint :: "string \<Rightarrow> nat \<times> num_error option" where
  "ParseUint s = (if s = [] then (0, Some ErrSyntax) else parse_digits 0 s)"

text \<open>
  \<^verbatim>\<open>strconv.ParseInt(s, 10, 0)\<close> on a 64-bit platform: an optional sign, then the
  unsigned digits; a syntax error gives 0, a value out of the signed range gives the
  nearest bound together with a range error.
\<close>

definition ParseInt :: "string \<Rightarrow> int \<times> num_error option" where
  "ParseInt s =
     (if s = [] then (0, Some ErrSyntax)
      else
        let neg = (hd s = CHR ''-'');
            s1 = (if hd s = CHR ''+'' \<or> hd s = CHR ''-'' then tl s else s);
            (un, err) = ParseUint s1;
            cutoff = (9223372036854775808::nat)
        in if err = Some ErrSyntax then (0, err)
           else if \<not> neg \<and> un \<ge> cutoff then (int cutoff - 1, Some ErrRange)
           else if neg \<and> un > cutoff then (- int cutoff, Some ErrRange)
           else ((if neg then - int un else int un), None))"

text \<open>
  \<^verbatim>\<open>strconv.Atoi\<close> returns the value of \<^verbatim>\<open>ParseInt\<close> and its error.  Every call site
  in the package discards the error (\<^verbatim>\<open>ici, _ := strconv.Atoi(ic)\<close>), so only the value
  is kept: 0 for text that is no number.
\<close>

definition Atoi :: "string \<Rightarrow> int" where
  "Atoi s = fst (ParseInt s)"

subsection \<open>fmt.Sprintf with the verb d\<close>

definition digit_char :: "nat \<Rightarrow> char" where
  "digit_char n = char_of (48 + n)"

fun itoa_nat :: "nat \<Rightarrow> string" where
  "itoa_nat n = (if n < 10 then [digit_char n] else itoa_nat (n div 10) @ [digit_char (n mod 10)])"

declare itoa_nat.simps [simp del]

definition Itoa :: "int \<Rightarrow> string" where
  "Itoa i = (if i < 0 then CHR ''-'' # itoa_nat (nat (- i)) else itoa_nat (nat i))"

text \<open>\<^verbatim>\<open>uver++\<close> on a 64-bit \<^verbatim>\<open>int\<close>: the largest value wraps to the smallest.\<close>

definition inc_int64 :: "int \<Rightarrow> int" where
  "inc_int64 x = (if x = 9223372036854775807 then - 9223372036854775808 else x + 1)"

section \<open>Version strings\<close>

text \<open>
  \<^verbatim>\<open>versionLess\<close>: equal texts are never less; otherwise the texts are split at the dots
  and up to three components are compared as numbers.  A text whose component \<open>q\<close> is
  missing is less, whatever the other text has there.
\<close>

primrec versionLess_loop :: "nat \<Rightarrow> nat \<Rightarrow> string list \<Rightarrow> string list \<Rightarrow> bool" where
  "versionLess_loop 0 q i_ver j_ver = False"
| "versionLess_loop (Suc k) q i_ver j_ver =
     (if length i_ver < q + 1 then True
      else if length j_ver < q + 1 then False
      else
        let ici = Atoi (i_ver ! q); jci = Atoi (j_ver ! q)
        in if ici \<noteq> jci then ici < jci
           else versionLess_loop k (q + 1) i_ver j_ver)"

text \<open>The loop \<^verbatim>\<open>for q := 0; q < 3; q++\<close> runs at most three times.\<close>

definition versionLess :: "string \<Rightarrow> string \<Rightarrow> bool" where
  "versionLess ver_a ver_b =
     (if ver_a = ver_b then False
      else versionLess_loop (Suc (Suc (Suc 0))) 0 (Split ver_a ''.'') (Split ver_b ''.''))"

section \<open>The constraint evaluator\<close>

definition verConstraintCheck :: "string \<Rightarrow> string \<Rightarrow> string \<Rightarrow> string" where
  "verConstraintCheck ver_a ver_b op =
     (if op = ''='' then
        (if ver_a = ver_b then ''ok''
         else if versionLess ver_a ver_b then ''break''
         else ''skip'')
      else if op = ''>'' then
        (if ver_a = ver_b \<or> versionLess ver_a ver_b then ''break'' else ''ok'')
      else if op = ''<'' then
        (if ver_a = ver_b \<or> \<not> versionLess ver_a ver_b then ''skip'' else ''ok'')
      else if op = ''>='' then
        (if \<not> versionLess ver_a ver_b then ''ok'' else ''break'')
      else if op = ''<='' then
        (if ver_a = ver_b \<or> versionLess ver_a ver_b then ''ok'' else ''skip'')
      else if op = ''~>'' then
        (if versionLess ver_a ver_b then ''break''
         else
           let pv = Split ver_b ''.'';
               upper_bound =
                 (if length pv = 3
                  then pv ! 0 @ ''.'' @ Itoa (inc_int64 (Atoi (pv ! 1)))
                  else Itoa (inc_int64 (Atoi (pv ! 0))) @ ''.0'')
           in if \<not> versionLess ver_a ver_b \<and> versionLess ver_a upper_bound
              then ''ok'' else ''skip'')
      else ''invalid'')"

section \<open>Cookbooks and their versions\<close>

text \<open>
  Values of Go's \<^verbatim>\<open>interface{}\<close> as they arrive from decoded JSON.  A Go map that the
  code ranges over is an association list with distinct keys, in the order in which the
  runtime happens to iterate it.
\<close>

datatype jval =
    JNil
  | JString string
  | JBool bool
  | JNum int
  | JList "jval list"
  | JMap "(string \<times> jval) list"

type_synonym division = "(string \<times> jval) list list"

text \<open>
  \<^verbatim>\<open>CookbookVersion\<close>.  The Go field \<^verbatim>\<open>Name\<close> is called \<open>VersionName\<close> here, since
  \<^verbatim>\<open>Cookbook\<close> has a field \<^verbatim>\<open>Name\<close> too; the database ids are left out.
\<close>

record CookbookVersion =
  CookbookName :: string
  VersionName :: string
  Version :: string
  ChefType :: string
  JsonClass :: string
  Definitions :: division
  Libraries :: division
  Attributes :: division
  Recipes :: division
  Providers :: division
  Resources :: division
  Templates :: division
  RootFiles :: division
  Files :: division
  IsFrozen :: bool
  Metadata :: "(string \<times> jval) list"

text \<open>
  \<^verbatim>\<open>Cookbook\<close>.  The private field \<^verbatim>\<open>latest\<close> is a pointer to a version object; it is
  modelled by the object it points to, \<open>None\<close> for \<^verbatim>\<open>nil\<close>.
\<close>

record Cookbook =
  Name :: string
  Versions :: "(string \<times> CookbookVersion) list"
  latest :: "CookbookVersion option"
  numVersions :: "int option"

datatype error =
    Panic
  | NotFound string
  | MalformedConstraint string
  | EnvConflict string string string
  | ImpossibleEnvConstraint string string
  | NoCookbookFound string string
  | NoDepVersion string string
  | DepConflict string string string string string
  | NoVersionSatisfies string "string list"
  | VersionExists string string
  | VersionNotFound string string
  | VersionMissing string string
  | FrozenVersion string string
  | FieldMissing string
  | FieldInvalid string
  | InvalidKey string
  | ValidationError string

subsection \<open>Sorted versions and the latest version\<close>

text \<open>
  \<^verbatim>\<open>sortedVersions\<close> collects the keys of \<^verbatim>\<open>Versions\<close>, sorts them with
  \<^verbatim>\<open>sort.Sort(sort.Reverse(keys))\<close> and looks every key up again.  \<^verbatim>\<open>sort.Reverse\<close> swaps
  the arguments of \<^verbatim>\<open>Less\<close>, which is \<^verbatim>\<open>versionLess\<close>.  The sort is an insertion sort
  here; on keys that \<^verbatim>\<open>versionLess\<close> orders strictly every sorting algorithm returns the
  same sequence.
\<close>

fun insert_desc ::
  "string \<times> CookbookVersion \<Rightarrow> (string \<times> CookbookVersion) list \<Rightarrow> (string \<times> CookbookVersion) list"
where
  "insert_desc kv [] = [kv]"
| "insert_desc kv (x # xs) =
     (if versionLess (fst kv) (fst x) then x # insert_desc kv xs else kv # x # xs)"

definition sortedVersions :: "Cookbook \<Rightarrow> CookbookVersion list" where
  "sortedVersions c = map snd (foldr insert_desc (Versions c) [])"

text \<open>\<^verbatim>\<open>sorted[0]\<close> of an empty slice is a run-time panic.\<close>

definition LatestVersion :: "Cookbook \<Rightarrow> (error + CookbookVersion) \<times> Cookbook" where
  "LatestVersion c =
     (case latest c of
        Some v \<Rightarrow> (Inr v, c)
      | None \<Rightarrow>
          (case sortedVersions c of
             [] \<Rightarrow> (Inl Panic, c)
           | v # _ \<Rightarrow> (Inr v, c\<lparr>latest := Some v\<rparr>)))"

definition UpdateLatestVersion :: "Cookbook \<Rightarrow> (error + unit) \<times> Cookbook" where
  "UpdateLatestVersion c =
     (case LatestVersion (c\<lparr>latest := None\<rparr>) of
        (Inl e, c') \<Rightarrow> (Inl e, c')
      | (Inr _, c') \<Rightarrow> (Inr (), c'))"

subsection \<open>The version selector\<close>

definition LatestConstrained ::
  "Cookbook \<Rightarrow> string \<Rightarrow> (error + CookbookVersion option) \<times> Cookbook"
where
  "LatestConstrained c constraint =
     (if constraint = [] then
        (case LatestVersion c of
           (Inl e, c') \<Rightarrow> (Inl e, c')
         | (Inr v, c') \<Rightarrow> (Inr (Some v), c'))
      else
        let traints = Split constraint '' ''
        in if length traints = 2
           then (Inr (find (\<lambda>cv. verConstraintCheck (Version cv) (traints ! 1) (traints ! 0) = ''ok'')
                        (sortedVersions c)), c)
           else (Inr None, c))"

definition splitConstraint :: "string \<Rightarrow> string \<times> string \<times> error option" where
  "splitConstraint constraint =
     (let t1 = Split constraint '' ''
      in if length t1 \<noteq> 2 then ([], [], Some (MalformedConstraint constraint))
         else (t1 ! 0, t1 ! 1, None))"

subsection \<open>Looking up and deleting a version\<close>

definition GetVersion ::
  "Cookbook \<Rightarrow> string \<Rightarrow> (error + CookbookVersion) \<times> Cookbook"
where
  "GetVersion c cbVersion =
     (if cbVersion = ''_latest'' then LatestVersion c
      else (case map_of (Versions c) cbVersion of
              None \<Rightarrow> (Inl (VersionNotFound (Name c) cbVersion), c)
            | Some cbv \<Rightarrow> (Inr cbv, c)))"

text \<open>
  \<^verbatim>\<open>DeleteVersion\<close>, with the in-memory store.  Removing the now unused file hashes and
  saving the cookbook act on the file store and the data store only and are not part of
  the cookbook value.  A panic inside \<^verbatim>\<open>GetVersion\<close> leaves through this function too.
\<close>

definition DeleteVersion :: "Cookbook \<Rightarrow> string \<Rightarrow> error option \<times> Cookbook" where
  "DeleteVersion c cb_version =
     (case GetVersion c cb_version of
        (Inl e, c') \<Rightarrow>
          if e = Panic then (Some Panic, c')
          else (Some (VersionMissing (Name c) cb_version), c')
      | (Inr cbv, c') \<Rightarrow>
          (None, c'\<lparr>numVersions := None,
                    Versions := filter (\<lambda>kv. fst kv \<noteq> cb_version) (Versions c')\<rparr>))"

subsection \<open>Updating and creating a version\<close>

text \<open>
  The validation helpers belong to package \<^verbatim>\<open>util\<close>, outside the cookbook package;
  \<^verbatim>\<open>UpdateVersion\<close> takes them as parameters.  Each returns a value of the type that
  \<^verbatim>\<open>UpdateVersion\<close> asserts on its result, or the text of its error.
\<close>

record validators =
  ValidateAsString :: "jval \<Rightarrow> string + string"
  ValidateAsFieldString :: "jval \<Rightarrow> string + string"
  ValidateAsVersion :: "jval \<Rightarrow> string + string"
  ValidateCookbookDivision :: "string \<Rightarrow> jval \<Rightarrow> string + division"
  ValidateCookbookMetadata :: "jval \<Rightarrow> string + (string \<times> jval) list"
  ValidateAsBool :: "jval \<Rightarrow> string + bool"

text \<open>Reading a key of \<^verbatim>\<open>map[string]interface{}\<close>: a missing key reads as \<^verbatim>\<open>nil\<close>.\<close>

definition index_data :: "(string \<times> jval) list \<Rightarrow> string \<Rightarrow> jval" where
  "index_data cbv_data k = (case map_of cbv_data k of None \<Rightarrow> JNil | Some v \<Rightarrow> v)"

definition valid_elements :: "string list" where
  "valid_elements =
     [''cookbook_name'', ''name'', ''version'', ''json_class'', ''chef_type'', ''definitions'',
      ''libraries'', ''attributes'', ''recipes'', ''providers'', ''resources'', ''templates'',
      ''root_files'', ''files'', ''frozen?'', ''metadata'', ''force'']"

definition divs :: "string list" where
  "divs =
     [''definitions'', ''libraries'', ''attributes'', ''recipes'', ''providers'', ''resources'',
      ''templates'', ''root_files'', ''files'']"

text \<open>The loop over \<^verbatim>\<open>divs\<close>: the first division that fails validation ends the update.\<close>

fun validate_divs ::
  "validators \<Rightarrow> (string \<times> jval) list \<Rightarrow> string list \<Rightarrow> string + (string \<times> division) list"
where
  "validate_divs V cbv_data [] = Inr []"
| "validate_divs V cbv_data (d # ds) =
     (case ValidateCookbookDivision V d (index_data cbv_data d) of
        Inl verr \<Rightarrow> Inl verr
      | Inr dv \<Rightarrow>
          (case validate_divs V cbv_data ds of
             Inl verr \<Rightarrow> Inl verr
           | Inr rest \<Rightarrow> Inr ((d, dv) # rest)))"

definition validated_div :: "(string \<times> division) list \<Rightarrow> string \<Rightarrow> division" where
  "validated_div vd d = (case map_of vd d of None \<Rightarrow> [] | Some dv \<Rightarrow> dv)"

text \<open>A type assertion \<^verbatim>\<open>v.(string)\<close>; \<open>None\<close> stands for the panic.\<close>

definition as_string :: "jval \<Rightarrow> string option" where
  "as_string v = (case v of JString s \<Rightarrow> Some s | _ \<Rightarrow> None)"

definition validate_chef_type ::
  "validators \<Rightarrow> CookbookVersion \<Rightarrow> (string \<times> jval) list \<Rightarrow> error + string"
where
  "validate_chef_type V cbv cbv_data =
     (case ValidateAsFieldString V (index_data cbv_data ''chef_type'') of
        Inl verr \<Rightarrow>
          if verr = ''Field 'name' nil'' then Inr (ChefType cbv)
          else Inl (FieldInvalid ''chef_type'')
      | Inr ct \<Rightarrow>
          if ct \<noteq> ''cookbook_version'' then Inl (FieldInvalid ''chef_type'') else Inr ct)"

definition validate_json_class ::
  "validators \<Rightarrow> CookbookVersion \<Rightarrow> (string \<times> jval) list \<Rightarrow> error + string"
where
  "validate_json_class V cbv cbv_data =
     (case ValidateAsFieldString V (index_data cbv_data ''json_class'') of
        Inl verr \<Rightarrow>
          if verr = ''Field 'name' nil'' then Inr (JsonClass cbv)
          else Inl (FieldInvalid ''json_class'')
      | Inr jc \<Rightarrow>
          if jc \<noteq> ''Chef::CookbookVersion'' then Inl (FieldInvalid ''json_class'') else Inr jc)"

text \<open>
  The block "Basic sanity checking".  The type assertions on the raw \<^verbatim>\<open>cookbook_name\<close>
  and \<^verbatim>\<open>name\<close> entries panic on a value that is no string.
\<close>

definition sanity_check ::
  "CookbookVersion \<Rightarrow> (string \<times> jval) list \<Rightarrow> string \<Rightarrow> error option"
where
  "sanity_check cbv cbv_data version =
     (case as_string (index_data cbv_data ''cookbook_name'') of
        None \<Rightarrow> Some Panic
      | Some cookbook_name \<Rightarrow>
          if cookbook_name \<noteq> CookbookName cbv then Some (FieldInvalid ''cookbook_name'')
          else
            (case as_string (index_data cbv_data ''name'') of
               None \<Rightarrow> Some Panic
             | Some name \<Rightarrow>
                 if name \<noteq> VersionName cbv then Some (FieldInvalid ''name'')
                 else if version \<noteq> Version cbv \<and> version \<noteq> ''0.0.0''
                 then Some (FieldInvalid ''version'')
                 else None))"

text \<open>
  The block "Update the data".  The frozen flag is written only while the version is
  not frozen.
\<close>

definition update_data ::
  "CookbookVersion \<Rightarrow> string \<Rightarrow> string \<Rightarrow> (string \<times> division) list \<Rightarrow> bool
     \<Rightarrow> (string \<times> jval) list \<Rightarrow> CookbookVersion"
where
  "update_data cbv chef_type json_class vd frozen metadata =
     cbv\<lparr>ChefType := chef_type,
         JsonClass := json_class,
         Definitions := validated_div vd ''definitions'',
         Libraries := validated_div vd ''libraries'',
         Attributes := validated_div vd ''attributes'',
         Recipes := validated_div vd ''recipes'',
         Providers := validated_div vd ''providers'',
         Resources := validated_div vd ''resources'',
         Templates := validated_div vd ''templates'',
         RootFiles := validated_div vd ''root_files'',
         Files := validated_div vd ''files'',
         IsFrozen := (if IsFrozen cbv \<noteq> True then frozen else IsFrozen cbv),
         Metadata := metadata\<rparr>"

text \<open>
  \<^verbatim>\<open>UpdateVersion\<close> returns its error, if any, and the version object as the call leaves
  it.  The checks come in the order of the source.  The clean-up of file hashes at the
  end acts on the file store only.
\<close>

definition UpdateVersion ::
  "validators \<Rightarrow> CookbookVersion \<Rightarrow> (string \<times> jval) list \<Rightarrow> string
     \<Rightarrow> error option \<times> CookbookVersion"
where
  "UpdateVersion V cbv cbv_data force =
     (if IsFrozen cbv = True \<and> force \<noteq> ''true''
      then (Some (FrozenVersion (CookbookName cbv) (Version cbv)), cbv)
      else
     (case ValidateAsString V (index_data cbv_data ''cookbook_name'') of
        Inl nerr \<Rightarrow>
          (if nerr = ''Field 'name' missing''
           then (Some (FieldMissing ''cookbook_name''), cbv)
           else (Some (FieldInvalid ''cookbook_name''), cbv))
      | Inr _ \<Rightarrow>
     (case find (\<lambda>k. k \<notin> set valid_elements) (map fst cbv_data) of
        Some k \<Rightarrow> (Some (InvalidKey k), cbv)
      | None \<Rightarrow>
     (case validate_chef_type V cbv cbv_data of
        Inl e \<Rightarrow> (Some e, cbv)
      | Inr chef_type \<Rightarrow>
     (case validate_json_class V cbv cbv_data of
        Inl e \<Rightarrow> (Some e, cbv)
      | Inr json_class \<Rightarrow>
     (case ValidateAsVersion V (index_data cbv_data ''version'') of
        Inl verr \<Rightarrow> (Some (FieldInvalid ''version''), cbv)
      | Inr v0 \<Rightarrow>
     (case validate_divs V cbv_data divs of
        Inl verr \<Rightarrow> (Some (ValidationError verr), cbv)
      | Inr vd \<Rightarrow>
     (case ValidateCookbookMetadata V (index_data cbv_data ''metadata'') of
        Inl verr \<Rightarrow> (Some (ValidationError verr), cbv)
      | Inr metadata \<Rightarrow>
     (case ValidateAsBool V (index_data cbv_data ''frozen?'') of
        Inl verr \<Rightarrow> (Some (ValidationError verr), cbv)
      | Inr frozen \<Rightarrow>
     (case sanity_check cbv cbv_data
             (if v0 = ''0.0.0'' \<and> Version cbv \<noteq> [] then Version cbv else v0) of
        Some e \<Rightarrow> (Some e, cbv)
      | None \<Rightarrow>
          (None, update_data cbv chef_type json_class vd frozen metadata)))))))))))"

text \<open>
  An assignment \<^verbatim>\<open>m[k] = v\<close> to a Go map, on the association list: an existing key keeps
  its place, a new key goes to the end.
\<close>

definition map_set :: "'k \<Rightarrow> 'v \<Rightarrow> ('k \<times> 'v) list \<Rightarrow> ('k \<times> 'v) list" where
  "map_set k v m =
     (if k \<in> set (map fst m) then map (\<lambda>kv. if fst kv = k then (k, v) else kv) m
      else m @ [(k, v)])"

text \<open>
  \<^verbatim>\<open>NewVersion\<close>: refuses a version that \<^verbatim>\<open>GetVersion\<close> finds, builds the new version
  object, fills it through \<^verbatim>\<open>UpdateVersion\<close>, adds it to \<^verbatim>\<open>Versions\<close> and recomputes
  the latest version.
\<close>

definition new_version_object :: "Cookbook \<Rightarrow> string \<Rightarrow> CookbookVersion" where
  "new_version_object c cb_version =
     \<lparr>CookbookName = Name c, VersionName = Name c @ ''-'' @ cb_version,
      Version = cb_version, ChefType = ''cookbook_version'',
      JsonClass = ''Chef::CookbookVersion'', Definitions = [], Libraries = [],
      Attributes = [], Recipes = [], Providers = [], Resources = [],
      Templates = [], RootFiles = [], Files = [], IsFrozen = False,
      Metadata = []\<rparr>"

definition NewVersion ::
  "validators \<Rightarrow> Cookbook \<Rightarrow> string \<Rightarrow> (string \<times> jval) list
     \<Rightarrow> (error + CookbookVersion) \<times> Cookbook"
where
  "NewVersion V c cb_version cbv_data =
     (case GetVersion c cb_version of
        (Inr _, c1) \<Rightarrow> (Inl (VersionExists cb_version (Name c)), c1)
      | (Inl e, c1) \<Rightarrow>
          if e = Panic then (Inl Panic, c1)
          else
            (case UpdateVersion V (new_version_object c1 cb_version) cbv_data [] of
               (Some err, _) \<Rightarrow> (Inl err, c1)
             | (None, cbv) \<Rightarrow>
                 (case UpdateLatestVersion
                         (c1\<lparr>Versions := map_set cb_version cbv (Versions c1),
                             numVersions := None\<rparr>) of
                    (Inl e2, c2) \<Rightarrow> (Inl e2, c2)
                  | (Inr _, c2) \<Rightarrow> (Inr cbv, c2))))"

section \<open>Dependency resolution\<close>

text \<open>
  The in-memory data store maps a cookbook name to the cookbook object.  \<^verbatim>\<open>Get(name)\<close> is
  the lookup \<open>st name\<close>, with the error \<open>NotFound name\<close> for a missing cookbook; it hands
  out the stored object itself (a \<^verbatim>\<open>*Cookbook\<close>), so what a method writes into the object
  is written into the store.  Resolution therefore takes the store and returns it.

  The table \<^verbatim>\<open>cd_list\<close> maps a cookbook name to the list of its constraints.
\<close>

type_synonym data_store = "string \<rightharpoonup> Cookbook"

type_synonym cd_table = "(string \<times> string list) list"

subsection \<open>The constraint table of the run list\<close>

definition run_list_entry :: "string \<Rightarrow> string \<times> string" where
  "run_list_entry cb_v =
     (let cx = Split cb_v ''@'';
          cbName = Split (cx ! 0) ''::'' ! 0;
          constraint = (if length cx = 2 then ''= '' @ cx ! 1 else [])
      in (cbName, constraint))"

fun run_list_table :: "string list \<Rightarrow> cd_table \<Rightarrow> cd_table" where
  "run_list_table [] cd_list = cd_list"
| "run_list_table (cb_v # rest) cd_list =
     (case run_list_entry cb_v of
        (cbName, constraint) \<Rightarrow> run_list_table rest (map_set cbName [constraint] cd_list))"

definition run_list_ref :: "string list \<Rightarrow> string list" where
  "run_list_ref run_list = map (\<lambda>cb_v. fst (run_list_entry cb_v)) run_list"

subsection \<open>Folding the environment's constraints in\<close>

text \<open>
  The body of the loop over \<^verbatim>\<open>env_constraints\<close>, for the key \<open>k\<close> and its constraint
  \<open>ec\<close>.  The error of splitting the run list's own constraint is dropped by the source;
  its version is then the empty text.
\<close>

definition env_constraint_step :: "string \<Rightarrow> string \<Rightarrow> cd_table \<Rightarrow> error + cd_table" where
  "env_constraint_step k ec cd_list =
     (case map_of cd_list k of
        None \<Rightarrow> Inr cd_list
      | Some cs \<Rightarrow>
          if cs = [] then Inl Panic
          else if cs ! 0 = [] then Inr (map_set k [ec] cd_list)
          else
            (let orgver = fst (snd (splitConstraint (cs ! 0)));
                 newop = fst (splitConstraint ec);
                 newver = fst (snd (splitConstraint ec))
             in case snd (snd (splitConstraint ec)) of
                  Some nerr \<Rightarrow> Inl nerr
                | None \<Rightarrow>
                    if orgver = newver then Inr (map_set k [ec] cd_list)
                    else if newop = ''>'' \<or> newop = ''>='' then
                      (if versionLess orgver newver then Inr (map_set k [ec] cd_list)
                       else Inr cd_list)
                    else if newop = ''<'' \<or> newop = ''<='' then
                      (if \<not> versionLess orgver newver then Inr (map_set k [ec] cd_list)
                       else Inr cd_list)
                    else if newop = ''='' then
                      (if orgver \<noteq> newver then Inl (EnvConflict (cs ! 0) k ec)
                       else Inr cd_list)
                    else if newop = ''~>'' then
                      (if verConstraintCheck orgver newver newop = ''ok''
                       then Inr (map_set k [ec] cd_list)
                       else Inl (EnvConflict (cs ! 0) k ec))
                    else Inl (ImpossibleEnvConstraint ec k)))"

fun env_constraint_loop :: "(string \<times> string) list \<Rightarrow> cd_table \<Rightarrow> error + cd_table" where
  "env_constraint_loop [] cd_list = Inr cd_list"
| "env_constraint_loop ((k, ec) # rest) cd_list =
     (case env_constraint_step k ec cd_list of
        Inl e \<Rightarrow> Inl e
      | Inr cd_list' \<Rightarrow> env_constraint_loop rest cd_list')"

subsection \<open>Walking the dependencies\<close>

definition dep_list_of :: "CookbookVersion \<Rightarrow> (string \<times> jval) list option" where
  "dep_list_of cbv =
     (case map_of (Metadata cbv) ''dependencies'' of
        None \<Rightarrow> None
      | Some v \<Rightarrow> (case v of JMap dep_list \<Rightarrow> Some dep_list | _ \<Rightarrow> None))"

text \<open>The check of a found dependency against the constraints the table already holds.\<close>

fun check_constraints ::
  "CookbookVersion \<Rightarrow> CookbookVersion \<Rightarrow> string \<Rightarrow> string list \<Rightarrow> error option"
where
  "check_constraints cbv deb_cbv c [] = None"
| "check_constraints cbv deb_cbv c (dcon # rest) =
     (if dcon \<noteq> [] then
        (case snd (snd (splitConstraint dcon)) of
           Some err \<Rightarrow> Some err
         | None \<Rightarrow>
             if verConstraintCheck (Version deb_cbv) (fst (snd (splitConstraint dcon)))
                  (fst (splitConstraint dcon)) \<noteq> ''ok''
             then Some (DepConflict (CookbookName cbv) (Version cbv) (CookbookName deb_cbv) c dcon)
             else check_constraints cbv deb_cbv c rest)
      else check_constraints cbv deb_cbv c rest)"

text \<open>
  The block "Do we satisfy the constraints we have?": a dependency whose cookbook has
  entries in the table is checked against them; otherwise its constraint becomes the
  cookbook's entry.
\<close>

definition check_or_add ::
  "CookbookVersion \<Rightarrow> CookbookVersion \<Rightarrow> string \<Rightarrow> string \<Rightarrow> cd_table \<Rightarrow> error + cd_table"
where
  "check_or_add cbv deb_cbv r c cd_list =
     (case map_of cd_list r of
        Some constraints \<Rightarrow>
          (case check_constraints cbv deb_cbv c constraints of
             Some err \<Rightarrow> Inl err
           | None \<Rightarrow> Inr cd_list)
      | None \<Rightarrow> Inr (map_set r [c] cd_list))"

type_synonym resolve_result = "((error + cd_table) \<times> data_store) option"

text \<open>
  The loop of \<^verbatim>\<open>resolveDependencies\<close> over the dependency map, with the recursive call
  as the parameter \<open>recurse\<close>.  \<open>None\<close> means that the call does not return.
\<close>

fun dep_loop ::
  "(data_store \<Rightarrow> CookbookVersion \<Rightarrow> cd_table \<Rightarrow> resolve_result) \<Rightarrow> data_store
     \<Rightarrow> CookbookVersion \<Rightarrow> (string \<times> jval) list \<Rightarrow> cd_table \<Rightarrow> resolve_result"
where
  "dep_loop recurse st cbv [] cd_list = Some (Inr cd_list, st)"
| "dep_loop recurse st cbv ((r, c2) # rest) cd_list =
     (case as_string c2 of
        None \<Rightarrow> Some (Inl Panic, st)
      | Some c \<Rightarrow>
     (case st r of
        None \<Rightarrow> Some (Inl (NotFound r), st)
      | Some dep_cb \<Rightarrow>
     (case LatestConstrained dep_cb c of
        (Inl e, dep_cb') \<Rightarrow> Some (Inl e, st(r \<mapsto> dep_cb'))
      | (Inr None, dep_cb') \<Rightarrow> Some (Inl (NoDepVersion r c), st(r \<mapsto> dep_cb'))
      | (Inr (Some deb_cbv), dep_cb') \<Rightarrow>
     (case check_or_add cbv deb_cbv r c cd_list of
        Inl e \<Rightarrow> Some (Inl e, st(r \<mapsto> dep_cb'))
      | Inr cd_list' \<Rightarrow>
     (case recurse (st(r \<mapsto> dep_cb')) deb_cbv cd_list' of
        None \<Rightarrow> None
      | Some (Inl nerr, st') \<Rightarrow> Some (Inl nerr, st')
      | Some (Inr cd_list'', st') \<Rightarrow> dep_loop recurse st' cbv rest cd_list'')))))"

text \<open>
  \<^verbatim>\<open>resolveDependencies\<close>, with the depth of recursion that the call may use as its
  first argument: at depth 0 the call does not return.
\<close>

primrec resolveDependencies ::
  "nat \<Rightarrow> data_store \<Rightarrow> CookbookVersion \<Rightarrow> cd_table \<Rightarrow> resolve_result"
where
  "resolveDependencies 0 st cbv cd_list = None"
| "resolveDependencies (Suc n) st cbv cd_list =
     (case dep_list_of cbv of
        None \<Rightarrow> Some (Inl Panic, st)
      | Some dep_list \<Rightarrow> dep_loop (resolveDependencies n) st cbv dep_list cd_list)"

subsection \<open>Resolving a run list\<close>

text \<open>The loop over the names of the run list ("Build a slice holding all the needed cookbooks").\<close>

fun needed_cookbooks ::
  "nat \<Rightarrow> data_store \<Rightarrow> string list \<Rightarrow> cd_table \<Rightarrow> resolve_result"
where
  "needed_cookbooks fuel st [] cd_list = Some (Inr cd_list, st)"
| "needed_cookbooks fuel st (cbName # rest) cd_list =
     (case st cbName of
        None \<Rightarrow> Some (Inl (NotFound cbName), st)
      | Some c \<Rightarrow>
     (case map_of cd_list cbName of
        None \<Rightarrow> Some (Inl Panic, st)
      | Some cs \<Rightarrow>
          if cs = [] then Some (Inl Panic, st)
          else
     (case LatestConstrained c (cs ! 0) of
        (Inl e, c') \<Rightarrow> Some (Inl e, st(cbName \<mapsto> c'))
      | (Inr None, c') \<Rightarrow> Some (Inl (NoCookbookFound (Name c) (cs ! 0)), st(cbName \<mapsto> c'))
      | (Inr (Some cbv), c') \<Rightarrow>
     (case resolveDependencies fuel (st(cbName \<mapsto> c')) cbv cd_list of
        None \<Rightarrow> None
      | Some (Inl nerr, st') \<Rightarrow> Some (Inl nerr, st')
      | Some (Inr cd_list', st') \<Rightarrow> needed_cookbooks fuel st' rest cd_list'))))"

text \<open>
  The final pass.  The inner loop over the constraints of one cookbook carries the label
  \<^verbatim>\<open>Vers\<close>, so \<^verbatim>\<open>continue Vers\<close> goes on with the next constraint: a constraint that the
  version fails is passed over.  Only a malformed constraint leaves the loop, with its
  error.
\<close>

fun final_constraints :: "CookbookVersion \<Rightarrow> string list \<Rightarrow> error option" where
  "final_constraints cv [] = None"
| "final_constraints cv (ct # rest) =
     (if ct \<noteq> [] then
        (case snd (snd (splitConstraint ct)) of
           Some err \<Rightarrow> Some err
         | None \<Rightarrow>
             if verConstraintCheck (Version cv) (fst (snd (splitConstraint ct)))
                  (fst (splitConstraint ct)) \<noteq> ''ok''
             then final_constraints cv rest
             else final_constraints cv rest)
      else final_constraints cv rest)"

text \<open>
  The loop over the sorted versions: after the inner loop the version at hand becomes
  \<^verbatim>\<open>gcbv\<close> and the loop ends.
\<close>

fun final_version :: "CookbookVersion list \<Rightarrow> string list \<Rightarrow> error + CookbookVersion option" where
  "final_version [] traints = Inr None"
| "final_version (cv # cvs) traints =
     (case final_constraints cv traints of
        Some err \<Rightarrow> Inl err
      | None \<Rightarrow> Inr (Some cv))"

text \<open>
  The result maps the name of each chosen version to its JSON rendering; the rendering
  is a function of the version object alone and is represented by that object.  The
  loop ranges over the table in one of the orders in which the runtime may iterate it;
  the order decides only which of several errors is reported.
\<close>

type_synonym cookbook_deps = "(string \<times> CookbookVersion) list"

fun final_pass :: "data_store \<Rightarrow> cd_table \<Rightarrow> cookbook_deps \<Rightarrow> error + cookbook_deps" where
  "final_pass st [] deps = Inr deps"
| "final_pass st ((cname, traints) # rest) deps =
     (case st cname of
        None \<Rightarrow> Inl (NotFound cname)
      | Some cb \<Rightarrow>
     (case final_version (sortedVersions cb) traints of
        Inl err \<Rightarrow> Inl err
      | Inr None \<Rightarrow> Inl (NoVersionSatisfies cname traints)
      | Inr (Some gcbv) \<Rightarrow> final_pass st rest (map_set (CookbookName gcbv) gcbv deps)))"

text \<open>
  \<^verbatim>\<open>DependsCookbooks\<close>.  The environment's constraints come as the association list of
  the map, in the order of iteration.
\<close>

definition DependsCookbooks ::
  "nat \<Rightarrow> data_store \<Rightarrow> string list \<Rightarrow> (string \<times> string) list
     \<Rightarrow> ((error + cookbook_deps) \<times> data_store) option"
where
  "DependsCookbooks fuel st run_list env_constraints =
     (case env_constraint_loop env_constraints (run_list_table run_list []) of
        Inl err \<Rightarrow> Some (Inl err, st)
      | Inr cd_list \<Rightarrow>
     (case needed_cookbooks fuel st (run_list_ref run_list) cd_list of
        None \<Rightarrow> None
      | Some (Inl err, st') \<Rightarrow> Some (Inl err, st')
      | Some (Inr cd_list', st') \<Rightarrow> Some (final_pass st' cd_list' [], st')))"

section \<open>The specification's version values\<close>

text \<open>
  The specification describes a version as a triple (major, minor, patch) of numbers,
  read from the dot-separated text with the patch taken as 0 when the text has no third
  part, and ordered lexicographically.  These definitions follow the specification's
  words; the theorems compare the code with them.
\<close>

definition spec_triple :: "string \<Rightarrow> int \<times> int \<times> int" where
  "spec_triple text =
     (let parts = Split text ''.''
      in (Atoi (parts ! 0), Atoi (parts ! 1), if length parts = 3 then Atoi (parts ! 2) else 0))"

definition triple_less :: "int \<times> int \<times> int \<Rightarrow> int \<times> int \<times> int \<Rightarrow> bool" where
  "triple_less v w =
     (case v of (a1, a2, a3) \<Rightarrow> case w of (b1, b2, b3) \<Rightarrow>
        a1 < b1 \<or> (a1 = b1 \<and> (a2 < b2 \<or> (a2 = b2 \<and> a3 < b3))))"

text \<open>The canonical text \<^verbatim>\<open>x.y.z\<close> of a version.\<close>

definition spec_text :: "nat \<times> nat \<times> nat \<Rightarrow> string" where
  "spec_text v =
     (case v of (x, y, z) \<Rightarrow> Itoa (int x) @ ''.'' @ Itoa (int y) @ ''.'' @ Itoa (int z))"

text \<open>The components of a version fit Go's 64-bit \<^verbatim>\<open>int\<close>.\<close>

definition int64_version :: "nat \<times> nat \<times> nat \<Rightarrow> bool" where
  "int64_version v =
     (case v of (x, y, z) \<Rightarrow>
        x < 9223372036854775808 \<and> y < 9223372036854775808 \<and> z < 9223372036854775808)"

datatype comparison = Less | Equal | Greater

definition spec_Compare :: "nat \<times> nat \<times> nat \<Rightarrow> nat \<times> nat \<times> nat \<Rightarrow> comparison" where
  "spec_Compare v w =
     (case v of (a1, a2, a3) \<Rightarrow> case w of (b1, b2, b3) \<Rightarrow>
        if a1 < b1 \<or> (a1 = b1 \<and> (a2 < b2 \<or> (a2 = b2 \<and> a3 < b3))) then Less
        else if a1 = b1 \<and> a2 = b2 \<and> a3 = b3 then Equal
        else Greater)"



section \<open>Example cookbooks\<close>

text \<open>
  A version object as \<^verbatim>\<open>NewVersion\<close> builds it, with the given dependency map in its
  metadata, and a cookbook holding such versions with no latest version cached.
\<close>

definition example_version :: "string \<Rightarrow> string \<Rightarrow> (string \<times> jval) list \<Rightarrow> CookbookVersion" where
  "example_version name ver deps =
     (new_version_object \<lparr>Name = name, Versions = [], latest = None, numVersions = None\<rparr> ver)
       \<lparr>Metadata := [(''dependencies'', JMap deps)]\<rparr>"

definition example_cookbook :: "string \<Rightarrow> (string \<times> (string \<times> jval) list) list \<Rightarrow> Cookbook" where
  "example_cookbook name vs =
     \<lparr>Name = name, Versions = map (\<lambda>vd. (fst vd, example_version name (fst vd) (snd vd))) vs,
      latest = None, numVersions = None\<rparr>"

text \<open>The cookbook \<^verbatim>\<open>foo\<close> with the versions 1.0.0, 1.2.0 and 2.0.0.\<close>

definition foo_cookbook :: Cookbook where
  "foo_cookbook = example_cookbook ''foo'' [(''1.0.0'', []), (''1.2.0'', []), (''2.0.0'', [])]"

section \<open>The specification's constraint merger\<close>




text \<open>Validators for the examples: they accept a value of the expected type as it is.\<close>

definition example_string :: "jval \<Rightarrow> string + string" where
  "example_string v =
     (case v of
        JString s \<Rightarrow> Inr s
      | JNil \<Rightarrow> Inl ''Field 'name' nil''
      | _ \<Rightarrow> Inl ''Field 'name' invalid'')"

definition example_division :: "string \<Rightarrow> jval \<Rightarrow> string + division" where
  "example_division d v = (case v of JNil \<Rightarrow> Inr [] | _ \<Rightarrow> Inl (''Field '' @ d @ '' invalid''))"

definition example_metadata :: "jval \<Rightarrow> string + (string \<times> jval) list" where
  "example_metadata v =
     (case v of JMap m \<Rightarrow> Inr m | JNil \<Rightarrow> Inr [] | _ \<Rightarrow> Inl ''bad metadata'')"

definition example_bool :: "jval \<Rightarrow> string + bool" where
  "example_bool v =
     (case v of JBool b \<Rightarrow> Inr b | JNil \<Rightarrow> Inr False | _ \<Rightarrow> Inl ''Field 'frozen?' invalid'')"

definition example_validators :: validators where
  "example_validators =
     \<lparr>ValidateAsString = example_string, ValidateAsFieldString = example_string,
      ValidateAsVersion = example_string, ValidateCookbookDivision = example_division,
      ValidateCookbookMetadata = example_metadata, ValidateAsBool = example_bool\<rparr>"

text \<open>A frozen version of \<^verbatim>\<open>foo\<close> and a request body that asks to unfreeze it.\<close>

definition frozen_version :: CookbookVersion where
  "frozen_version = (example_version ''foo'' ''1.0.0'' [])\<lparr>IsFrozen := True\<rparr>"

definition unfreeze_data :: "(string \<times> jval) list" where
  "unfreeze_data =
     [(''cookbook_name'', JString ''foo''), (''name'', JString ''foo-1.0.0''),
      (''version'', JString ''1.0.0''), (''frozen?'', JBool False),
      (''metadata'', JMap [(''maintainer'', JString ''someone'')])]"

text \<open>
  The cookbook \<^verbatim>\<open>foo\<close> with the versions 1.0.0 and 2.0.0, and a request body for a new
  version 2.0.0 of \<^verbatim>\<open>foo\<close>.
\<close>

definition foo_two :: Cookbook where
  "foo_two = example_cookbook ''foo'' [(''1.0.0'', []), (''2.0.0'', [])]"

definition foo_one :: Cookbook where
  "foo_one = example_cookbook ''foo'' [(''1.0.0'', [])]"

definition new_version_data :: "(string \<times> jval) list" where
  "new_version_data =
     [(''cookbook_name'', JString ''foo''), (''name'', JString ''foo-2.0.0''),
      (''version'', JString ''2.0.0''), (''metadata'', JMap [(''dependencies'', JMap [])])]"

text \<open>\<^verbatim>\<open>New\<close> leaves a cookbook without versions.\<close>

definition empty_cookbook :: Cookbook where
  "empty_cookbook = \<lparr>Name = ''foo'', Versions = [], latest = None, numVersions = None\<rparr>"

section \<open>What resolution may change in the store\<close>

text \<open>
  \<open>cache_fill c c'\<close>: the cookbook \<open>c'\<close> is \<open>c\<close>, or \<open>c\<close> with its unset latest
  version set to the first of its sorted versions.  \<open>store_fill st st'\<close>: the stores
  hold the same cookbooks, up to such a filling of the latest version.
\<close>

definition cache_fill :: "Cookbook \<Rightarrow> Cookbook \<Rightarrow> bool" where
  "cache_fill c c' \<longleftrightarrow>
     c' = c \<or>
     (latest c = None \<and>
      (case sortedVersions c of [] \<Rightarrow> False | v # _ \<Rightarrow> c' = c\<lparr>latest := Some v\<rparr>))"

definition store_fill :: "data_store \<Rightarrow> data_store \<Rightarrow> bool" where
  "store_fill st st' \<longleftrightarrow>
     (\<forall>n. case st n of
            None \<Rightarrow> st' n = None
          | Some c \<Rightarrow> (case st' n of None \<Rightarrow> False | Some c' \<Rightarrow> cache_fill c c'))"

section \<open>The dependency graph of a store\<close>

text \<open>
  The version objects that a cookbook holds, in its version map or as its cached latest
  version; the names that a version declares as dependencies; and the graph with an edge
  from a cookbook of the store to every name that one of its version objects declares.
\<close>

definition version_objects :: "Cookbook \<Rightarrow> CookbookVersion set" where
  "version_objects c = snd ` set (Versions c) \<union> set_option (latest c)"

definition declared_deps :: "CookbookVersion \<Rightarrow> string set" where
  "declared_deps cbv = (case dep_list_of cbv of None \<Rightarrow> {} | Some dep_list \<Rightarrow> fst ` set dep_list)"

definition dependency_graph :: "data_store \<Rightarrow> (string \<times> string) set" where
  "dependency_graph st =
     {(n, r). \<exists>c v. st n = Some c \<and> v \<in> version_objects c \<and> r \<in> declared_deps v}"

section \<open>More example stores\<close>

text \<open>
  A store with three cookbooks: \<^verbatim>\<open>a\<close> 1.0.0 declares the given dependencies, \<^verbatim>\<open>b\<close> has
  the versions 1.0.0 and 2.0.0 and no dependencies, and \<^verbatim>\<open>c\<close> 1.0.0 depends on \<^verbatim>\<open>b\<close>
  with the constraint \<^verbatim>\<open>= 1.0.0\<close>.
\<close>

definition abc_store :: "(string \<times> jval) list \<Rightarrow> data_store" where
  "abc_store a_deps =
     [''a'' \<mapsto> example_cookbook ''a'' [(''1.0.0'', a_deps)],
      ''b'' \<mapsto> example_cookbook ''b'' [(''1.0.0'', []), (''2.0.0'', [])],
      ''c'' \<mapsto> example_cookbook ''c'' [(''1.0.0'', [(''b'', JString ''= 1.0.0'')])]]"

text \<open>A store whose only cookbook depends on itself.\<close>

definition self_store :: data_store where
  "self_store = [''a'' \<mapsto> example_cookbook ''a'' [(''1.0.0'', [(''a'', JString [])])]]"

text \<open>The dependency map of \<^verbatim>\<open>a\<close>, in the two orders in which the runtime may iterate it.\<close>

definition bc_deps :: "(string \<times> jval) list" where
  "bc_deps = [(''b'', JString []), (''c'', JString [])]"

definition cb_deps :: "(string \<times> jval) list" where
  "cb_deps = [(''c'', JString []), (''b'', JString [])]"


section \<open>Splitting, reading and printing numbers\<close>

lemma split_go_no_sep:
  "c \<notin> set s \<Longrightarrow> split_go [c] acc s = [rev acc @ s]"
  by (induction s arbitrary: acc) auto

lemma split_go_at_sep:
  "c \<notin> set a \<Longrightarrow> split_go [c] acc (a @ c # rest) = (rev acc @ a) # split_go [c] [] rest"
  by (induction a arbitrary: acc) auto

lemma Split_three:
  assumes "c \<notin> set x" "c \<notin> set y" "c \<notin> set z"
  shows "Split (x @ c # y @ c # z) [c] = [x, y, z]"
  using assms by (simp add: Split_def split_go_at_sep split_go_no_sep)

lemma of_char_digit_char: "n < 10 \<Longrightarrow> of_char (digit_char n) = (48 + n :: nat)"
  by (simp add: digit_char_def)

lemma is_digit_digit_char: "n < 10 \<Longrightarrow> is_digit (digit_char n)"
  by (simp add: is_digit_def of_char_digit_char)

lemma digit_val_digit_char: "n < 10 \<Longrightarrow> digit_val (digit_char n) = n"
  by (simp add: digit_val_def of_char_digit_char)

lemma itoa_nat_digits: "d \<in> set (itoa_nat n) \<Longrightarrow> is_digit d"
proof (induction n rule: itoa_nat.induct)
  case (1 n)
  show ?case
  proof (cases "n < 10")
    case True
    with "1.prems" show ?thesis
      by (simp add: itoa_nat.simps [of n] is_digit_digit_char)
  next
    case False
    with "1.prems" "1.IH" show ?thesis
      by (auto simp add: itoa_nat.simps [of n] is_digit_digit_char)
  qed
qed

lemma itoa_nat_not_Nil: "itoa_nat n \<noteq> []"
  by (subst itoa_nat.simps) simp

lemma parse_digits_append:
  "parse_digits a (xs @ ys) =
     (case parse_digits a xs of (m, None) \<Rightarrow> parse_digits m ys | (m, Some e) \<Rightarrow> (m, Some e))"
  by (induction xs arbitrary: a) (auto simp add: Let_def)

lemma parse_digits_itoa_nat:
  "n \<le> maxUint64 \<Longrightarrow> parse_digits 0 (itoa_nat n) = (n, None)"
proof (induction n rule: itoa_nat.induct)
  case (1 n)
  show ?case
  proof (cases "n < 10")
    case True
    then show ?thesis
      by (simp add: itoa_nat.simps [of n] is_digit_digit_char digit_val_digit_char maxUint64_def)
  next
    case False
    have small: "n div 10 \<le> maxUint64" using "1.prems" by simp
    have ih: "parse_digits 0 (itoa_nat (n div 10)) = (n div 10, None)"
      using "1.IH" False small by simp
    have "n div 10 < maxUint64 div 10 + 1"
      using "1.prems" by (simp add: maxUint64_def)
    moreover have "n div 10 * 10 + n mod 10 = n" by simp
    ultimately show ?thesis
      using False "1.prems" ih
      by (simp add: itoa_nat.simps [of n] parse_digits_append is_digit_digit_char
          digit_val_digit_char)
  qed
qed

lemma is_digit_not_sign: "is_digit d \<Longrightarrow> d \<noteq> CHR ''-'' \<and> d \<noteq> CHR ''+'' \<and> d \<noteq> CHR ''.''"
  by (auto simp add: is_digit_def)

lemma Atoi_Itoa:
  assumes "n < 9223372036854775808"
  shows "Atoi (Itoa (int n)) = int n"
proof -
  have ne: "itoa_nat n \<noteq> []" by (rule itoa_nat_not_Nil)
  then have "hd (itoa_nat n) \<in> set (itoa_nat n)" by simp
  then have "is_digit (hd (itoa_nat n))" by (rule itoa_nat_digits)
  then have hd: "hd (itoa_nat n) \<noteq> CHR ''-''" "hd (itoa_nat n) \<noteq> CHR ''+''"
    using is_digit_not_sign by blast+
  have "parse_digits 0 (itoa_nat n) = (n, None)"
    using assms by (intro parse_digits_itoa_nat) (simp add: maxUint64_def)
  then show ?thesis
    using ne hd assms by (simp add: Atoi_def Itoa_def ParseInt_def ParseUint_def)
qed

lemma dot_not_in_Itoa: "CHR ''.'' \<notin> set (Itoa (int n))"
  using itoa_nat_digits [of "CHR ''.''" n] is_digit_not_sign [of "CHR ''.''"]
  by (auto simp add: Itoa_def)

lemma Split_spec_text:
  "Split (spec_text (x, y, z)) ''.'' = [Itoa (int x), Itoa (int y), Itoa (int z)]"
  using Split_three [OF dot_not_in_Itoa dot_not_in_Itoa dot_not_in_Itoa, of x y z]
  by (simp add: spec_text_def)


section \<open>Version comparison\<close>


lemma versionLess_3_3:
  assumes "length (Split a ''.'') = 3" "length (Split b ''.'') = 3"
  shows "versionLess a b \<longleftrightarrow> triple_less (spec_triple a) (spec_triple b)"
proof (cases "a = b")
  case True
  then show ?thesis by (simp add: versionLess_def triple_less_def spec_triple_def Let_def)
next
  case False
  with assms show ?thesis
    by (auto simp add: versionLess_def triple_less_def spec_triple_def Let_def numeral_2_eq_2)
qed

lemma versionLess_2_3:
  assumes "length (Split c ''.'') = 2" "length (Split a ''.'') = 3"
  shows "versionLess c a \<longleftrightarrow>
           triple_less (spec_triple c) (spec_triple a) \<or>
           (fst (spec_triple c) = fst (spec_triple a) \<and>
            fst (snd (spec_triple c)) = fst (snd (spec_triple a)))"
    and "versionLess a c \<longleftrightarrow>
           triple_less (spec_triple a) (spec_triple c) \<and>
           \<not> (fst (spec_triple c) = fst (spec_triple a) \<and>
              fst (snd (spec_triple c)) = fst (snd (spec_triple a)))"
proof -
  from assms have ne: "a \<noteq> c" by auto
  from assms ne show "versionLess c a \<longleftrightarrow>
           triple_less (spec_triple c) (spec_triple a) \<or>
           (fst (spec_triple c) = fst (spec_triple a) \<and>
            fst (snd (spec_triple c)) = fst (snd (spec_triple a)))"
    by (auto simp add: versionLess_def triple_less_def spec_triple_def Let_def numeral_2_eq_2)
  from assms ne show "versionLess a c \<longleftrightarrow>
           triple_less (spec_triple a) (spec_triple c) \<and>
           \<not> (fst (spec_triple c) = fst (spec_triple a) \<and>
              fst (snd (spec_triple c)) = fst (snd (spec_triple a)))"
    by (auto simp add: versionLess_def triple_less_def spec_triple_def Let_def numeral_2_eq_2)
qed

lemma versionLess_spec_text:
  assumes "int64_version v" "int64_version w"
  shows "versionLess (spec_text v) (spec_text w) \<longleftrightarrow> spec_Compare v w = Less"
proof -
  obtain x y z where v: "v = (x, y, z)" by (cases v) auto
  obtain x' y' z' where w: "w = (x', y', z')" by (cases w) auto
  have "versionLess (spec_text v) (spec_text w) \<longleftrightarrow>
          triple_less (spec_triple (spec_text v)) (spec_triple (spec_text w))"
    by (rule versionLess_3_3) (simp_all add: v w Split_spec_text)
  also have "\<dots> \<longleftrightarrow> spec_Compare v w = Less"
    using assms
    by (simp add: v w spec_triple_def Split_spec_text triple_less_def spec_Compare_def
        int64_version_def Atoi_Itoa)
  finally show ?thesis .
qed


section \<open>Evaluation on concrete texts and cookbooks\<close>

lemma digit_char_table:
  "digit_char 0 = CHR ''0''" "digit_char 1 = CHR ''1''" "digit_char 2 = CHR ''2''"
  "digit_char 3 = CHR ''3''" "digit_char 4 = CHR ''4''" "digit_char 5 = CHR ''5''"
  "digit_char 6 = CHR ''6''" "digit_char 7 = CHR ''7''" "digit_char 8 = CHR ''8''"
  "digit_char 9 = CHR ''9''" "digit_char (Suc 0) = CHR ''1''"
  by code_simp+

lemmas go_eval =
  Split_def Atoi_def ParseInt_def ParseUint_def is_digit_def digit_val_def maxUint64_def
  Itoa_def inc_int64_def digit_char_table itoa_nat.simps versionLess_def
  verConstraintCheck_def Let_def

lemmas cookbook_eval =
  sortedVersions_def LatestVersion_def LatestConstrained_def splitConstraint_def
  example_cookbook_def example_version_def new_version_object_def

lemmas update_eval =
  UpdateVersion_def update_data_def sanity_check_def validate_chef_type_def
  validate_json_class_def index_data_def as_string_def valid_elements_def divs_def
  validated_div_def example_validators_def example_string_def example_division_def
  example_metadata_def example_bool_def example_version_def new_version_object_def

lemmas resolve_eval =
  DependsCookbooks_def run_list_entry_def run_list_ref_def map_set_def dep_list_of_def
  as_string_def env_constraint_step_def check_or_add_def

section \<open>Versions and constraints: the specification and the code\<close>






text \<open>
  C2, as the specification states it: for the cookbook \<^verbatim>\<open>foo\<close> with the versions 1.0.0,
  1.2.0 and 2.0.0, \<^verbatim>\<open>LatestConstrained\<close> with the constraint \<^verbatim>\<open>~> 1.0.0\<close> returns
  version 1.2.0.  The code does not return that version.
\<close>

theorem LatestConstrained_pessimistic_counterexample:
  "fst (LatestConstrained foo_cookbook ''~> 1.0.0'') \<noteq> Inr (Some (example_version ''foo'' ''1.2.0'' []))"
  by (simp add: foo_cookbook_def cookbook_eval go_eval)

text \<open>
  C2, amended: the pessimistic operator with the three-part bound 1.0.0 admits the
  versions from 1.0.0 up to, but not including, 1.1; so 2.0.0 and 1.2.0 are skipped and
  \<^verbatim>\<open>LatestConstrained\<close> returns version 1.0.0.
\<close>

theorem LatestConstrained_pessimistic:
  "fst (LatestConstrained foo_cookbook ''~> 1.0.0'') = Inr (Some (example_version ''foo'' ''1.0.0'' [])) \<and>
   verConstraintCheck ''2.0.0'' ''1.0.0'' ''~>'' = ''skip'' \<and>
   verConstraintCheck ''1.2.0'' ''1.0.0'' ''~>'' = ''skip'' \<and>
   verConstraintCheck ''1.0.0'' ''1.0.0'' ''~>'' = ''ok''"
  by (simp add: foo_cookbook_def cookbook_eval go_eval)

text \<open>
  The pessimistic operator with a three-part bound \<^verbatim>\<open>x.y.z\<close>, on canonical texts: a
  candidate below the bound ends the scan; otherwise the candidate is accepted exactly
  when it lies below \<^verbatim>\<open>x.(y+1).0\<close>.
\<close>

lemma Split_two:
  assumes "c \<notin> set x" "c \<notin> set y"
  shows "Split (x @ c # y) [c] = [x, y]"
  using assms by (simp add: Split_def split_go_at_sep split_go_no_sep)

lemma verConstraintCheck_pessimistic_three_part:
  assumes "int64_version v" and "int64_version (x, y, z)" and "y + 1 < 9223372036854775808"
  shows "verConstraintCheck (spec_text v) (spec_text (x, y, z)) ''~>'' =
           (if spec_Compare v (x, y, z) = Less then ''break''
            else if spec_Compare v (x, y + 1, 0) = Less then ''ok''
            else ''skip'')"
proof -
  obtain a1 a2 a3 where v: "v = (a1, a2, a3)" by (cases v) auto
  define m where "m = y + 1"
  define upper where "upper = Itoa (int x) @ ''.'' @ Itoa (int m)"
  have less: "versionLess (spec_text v) (spec_text (x, y, z)) \<longleftrightarrow> spec_Compare v (x, y, z) = Less"
    using assms(1,2) by (rule versionLess_spec_text)
  have y: "Atoi (Itoa (int y)) = int y"
    using assms(2) by (simp add: int64_version_def Atoi_Itoa)
  have inc: "inc_int64 (int y) = int m"
    using assms(3) by (simp add: inc_int64_def m_def)
  have up_parts: "Split upper ''.'' = [Itoa (int x), Itoa (int m)]"
    unfolding upper_def using Split_two [OF dot_not_in_Itoa dot_not_in_Itoa, of x m] by simp
  have x1: "Atoi (Itoa (int x)) = int x"
    using assms(2) by (simp add: int64_version_def Atoi_Itoa)
  have m1: "Atoi (Itoa (int m)) = int m"
    using assms(3) unfolding m_def by (rule Atoi_Itoa)
  have up_triple: "spec_triple upper = (int x, int m, 0)"
    by (simp add: spec_triple_def up_parts x1 m1)
  have v_triple: "spec_triple (spec_text v) = (int a1, int a2, int a3)"
    using assms(1) by (simp add: v spec_triple_def Split_spec_text int64_version_def Atoi_Itoa)
  have "versionLess (spec_text v) upper \<longleftrightarrow>
          triple_less (spec_triple (spec_text v)) (spec_triple upper) \<and>
          \<not> (fst (spec_triple upper) = fst (spec_triple (spec_text v)) \<and>
             fst (snd (spec_triple upper)) = fst (snd (spec_triple (spec_text v))))"
    by (rule versionLess_2_3(2)) (simp_all add: up_parts v Split_spec_text)
  then have "versionLess (spec_text v) upper \<longleftrightarrow>
          triple_less (int a1, int a2, int a3) (int x, int m, 0) \<and>
          \<not> (int x = int a1 \<and> int m = int a2)"
    unfolding up_triple v_triple by simp
  also have "\<dots> \<longleftrightarrow> spec_Compare (a1, a2, a3) (x, m, 0) = Less"
    by (auto simp add: triple_less_def spec_Compare_def)
  finally have up_less: "versionLess (spec_text v) upper \<longleftrightarrow> spec_Compare v (x, m, 0) = Less"
    by (simp only: v)
  have "verConstraintCheck (spec_text v) (spec_text (x, y, z)) ''~>'' =
          (if versionLess (spec_text v) (spec_text (x, y, z)) then ''break''
           else if versionLess (spec_text v) upper then ''ok'' else ''skip'')"
    by (simp add: verConstraintCheck_def Split_spec_text y inc upper_def Let_def)
  with less up_less show ?thesis by (simp add: m_def)
qed

section \<open>Merging a request with the environment\<close>




section \<open>The frozen flag\<close>

text \<open>
  C9: the frozen flag is monotone under \<^verbatim>\<open>UpdateVersion\<close>.  Whatever the validators, the
  request body and the force argument are, a frozen version is frozen after the call;
  without force the call is refused and leaves the version as it was.
\<close>

theorem UpdateVersion_keeps_frozen:
  assumes "IsFrozen cbv"
  shows "IsFrozen (snd (UpdateVersion V cbv cbv_data force)) \<and>
         (force \<noteq> ''true'' \<longrightarrow>
            UpdateVersion V cbv cbv_data force =
              (Some (FrozenVersion (CookbookName cbv) (Version cbv)), cbv))"
  using assms
  by (simp add: UpdateVersion_def update_data_def split: sum.split option.split)

text \<open>
  C9 on a frozen version: with force the update goes through and replaces the metadata,
  the body's request to unfreeze has no effect; without force the update is refused.
\<close>

theorem UpdateVersion_keeps_frozen_witness:
  "IsFrozen frozen_version \<and>
   fst (UpdateVersion example_validators frozen_version unfreeze_data ''true'') = None \<and>
   Metadata (snd (UpdateVersion example_validators frozen_version unfreeze_data ''true'')) =
     [(''maintainer'', JString ''someone'')] \<and>
   IsFrozen (snd (UpdateVersion example_validators frozen_version unfreeze_data ''true'')) \<and>
   UpdateVersion example_validators frozen_version unfreeze_data [] =
     (Some (FrozenVersion ''foo'' ''1.0.0''), frozen_version)"
proof -
  have f: "IsFrozen frozen_version"
    by (simp add: frozen_version_def)
  have ok: "fst (UpdateVersion example_validators frozen_version unfreeze_data ''true'') = None"
    by (simp add: frozen_version_def unfreeze_data_def update_eval)
  have md: "Metadata (snd (UpdateVersion example_validators frozen_version unfreeze_data ''true'')) =
     [(''maintainer'', JString ''someone'')]"
    by (simp add: frozen_version_def unfreeze_data_def update_eval)
  have names: "CookbookName frozen_version = ''foo''" "Version frozen_version = ''1.0.0''"
    by (simp_all add: frozen_version_def example_version_def new_version_object_def)
  show ?thesis
    using UpdateVersion_keeps_frozen [OF f, of example_validators unfreeze_data "''true''"]
      UpdateVersion_keeps_frozen [OF f, of example_validators unfreeze_data "[]"]
      f ok md names
    by simp
qed

section \<open>The final pass of the resolution\<close>

text \<open>
  In the final pass a constraint that the version fails has no effect: with well-formed
  constraints the inner loop always runs to its end, and the newest version is chosen.
\<close>

lemma final_constraints_passes:
  "\<forall>ct \<in> set traints. ct \<noteq> [] \<longrightarrow> snd (snd (splitConstraint ct)) = None
     \<Longrightarrow> final_constraints cv traints = None"
  by (induction traints) auto

lemma final_version_newest:
  "\<forall>ct \<in> set traints. ct \<noteq> [] \<longrightarrow> snd (snd (splitConstraint ct)) = None
     \<Longrightarrow> final_version (cv # cvs) traints = Inr (Some cv)"
  by (simp add: final_constraints_passes)

text \<open>
  C1 at a failing input: \<^verbatim>\<open>foo\<close> has the versions 1.0.0 and 2.0.0 and the run list asks
  for \<^verbatim>\<open>foo@1.0.0\<close>.  The table holds the constraint \<^verbatim>\<open>= 1.0.0\<close> for \<^verbatim>\<open>foo\<close>, which
  version 1.0.0 satisfies, yet the final pass chooses version 2.0.0.
\<close>

theorem DependsCookbooks_final_pass_ignores_constraint:
  "map_option fst (DependsCookbooks (Suc 0) [''foo'' \<mapsto> foo_two] [''foo@1.0.0''] []) =
     Some (Inr [(''foo'', example_version ''foo'' ''2.0.0'' [])])"
  by (simp add: foo_two_def resolve_eval cookbook_eval go_eval)

section \<open>The cached latest version\<close>

lemma NewVersion_example:
  "NewVersion example_validators foo_one ''2.0.0'' new_version_data =
     (Inr (example_version ''foo'' ''2.0.0'' []),
      foo_two\<lparr>latest := Some (example_version ''foo'' ''2.0.0'' [])\<rparr>)"
  by (simp add: NewVersion_def GetVersion_def UpdateLatestVersion_def foo_one_def foo_two_def
      new_version_data_def update_eval map_set_def cookbook_eval go_eval)

text \<open>
  C6 at a failing input: after \<^verbatim>\<open>NewVersion\<close> has added version 2.0.0 to \<^verbatim>\<open>foo\<close>, which
  had version 1.0.0, \<^verbatim>\<open>DeleteVersion\<close> removes version 2.0.0 again.  The version set is
  then 1.0.0 alone, and \<^verbatim>\<open>LatestVersion\<close> still returns the deleted version 2.0.0.
\<close>

theorem DeleteVersion_leaves_latest_stale:
  "(case NewVersion example_validators foo_one ''2.0.0'' new_version_data of
      (created, c) \<Rightarrow>
        (case DeleteVersion c ''2.0.0'' of
           (err, c') \<Rightarrow> (err, map fst (Versions c'), fst (LatestVersion c')))) =
     (None, [''1.0.0''], Inr (example_version ''foo'' ''2.0.0'' []))"
  by (simp add: NewVersion_example DeleteVersion_def GetVersion_def LatestVersion_def
      foo_two_def example_cookbook_def)

text \<open>
  C7 at a failing input: a cookbook without versions, as \<^verbatim>\<open>New\<close> creates it.  Selecting
  with the empty constraint indexes the empty sorted slice and panics.
\<close>

theorem LatestConstrained_no_versions_panics:
  "LatestConstrained empty_cookbook [] = (Inl Panic, empty_cookbook)"
  by (simp add: empty_cookbook_def LatestConstrained_def LatestVersion_def sortedVersions_def)

section \<open>Resolution only fills caches\<close>

lemma set_insert_desc: "set (insert_desc kv xs) = insert kv (set xs)"
  by (induction xs) auto

lemma set_foldr_insert_desc: "set (foldr insert_desc xs []) = set xs"
  by (induction xs) (simp_all add: set_insert_desc)

lemma set_sortedVersions: "set (sortedVersions c) = snd ` set (Versions c)"
  by (simp add: sortedVersions_def set_foldr_insert_desc)

lemma cache_fill_refl: "cache_fill c c"
  by (simp add: cache_fill_def)

lemma sortedVersions_latest_update [simp]:
  "sortedVersions (c\<lparr>latest := x\<rparr>) = sortedVersions c"
  by (simp add: sortedVersions_def)

lemma cache_fill_trans: "cache_fill a b \<Longrightarrow> cache_fill b c \<Longrightarrow> cache_fill a c"
  by (auto simp add: cache_fill_def split: list.splits)

lemma cache_fill_objects: "cache_fill c c' \<Longrightarrow> version_objects c' \<subseteq> version_objects c"
proof -
  assume cf: "cache_fill c c'"
  show ?thesis
  proof (cases "c' = c")
    case True
    then show ?thesis by simp
  next
    case False
    with cf obtain v vs where sv: "sortedVersions c = v # vs" and c': "c' = c\<lparr>latest := Some v\<rparr>"
      by (auto simp add: cache_fill_def split: list.splits)
    from sv have "v \<in> set (sortedVersions c)" by simp
    then have "v \<in> snd ` set (Versions c)" by (simp add: set_sortedVersions)
    with c' show ?thesis by (auto simp add: version_objects_def)
  qed
qed

lemma LatestVersion_cache_fill: "cache_fill c (snd (LatestVersion c))"
  by (simp add: LatestVersion_def cache_fill_def split: option.split list.split)

lemma LatestConstrained_cache_fill: "cache_fill c (snd (LatestConstrained c x))"
  using LatestVersion_cache_fill [of c]
  by (auto simp add: LatestConstrained_def Let_def cache_fill_refl split: prod.splits sum.splits)

lemma LatestVersion_object:
  "LatestVersion c = (Inr v, c') \<Longrightarrow> v \<in> version_objects c'"
  by (auto simp add: LatestVersion_def version_objects_def split: option.splits list.splits)

lemma LatestConstrained_object:
  assumes "LatestConstrained c x = (Inr (Some v), c')"
  shows "v \<in> version_objects c'"
proof (cases "x = []")
  case True
  with assms obtain r where "LatestVersion c = (Inr v, c')"
    by (auto simp add: LatestConstrained_def split: prod.splits sum.splits)
  then show ?thesis by (rule LatestVersion_object)
next
  case False
  with assms have c': "c' = c"
    and "find (\<lambda>cv. verConstraintCheck (Version cv) (Split x '' '' ! 1) (Split x '' '' ! 0) = ''ok'')
           (sortedVersions c) = Some v"
    by (auto simp add: LatestConstrained_def Let_def split: if_splits)
  then have "v \<in> set (sortedVersions c)"
    by (auto simp add: find_Some_iff)
  with c' show ?thesis by (auto simp add: set_sortedVersions version_objects_def)
qed

lemma store_fill_refl: "store_fill st st"
  by (simp add: store_fill_def cache_fill_refl split: option.split)

lemma store_fill_trans:
  assumes "store_fill a b" "store_fill b c"
  shows "store_fill a c"
  unfolding store_fill_def
proof
  fix n
  from assms have a: "case a n of None \<Rightarrow> b n = None
      | Some x \<Rightarrow> (case b n of None \<Rightarrow> False | Some y \<Rightarrow> cache_fill x y)"
    and b: "case b n of None \<Rightarrow> c n = None
      | Some y \<Rightarrow> (case c n of None \<Rightarrow> False | Some z \<Rightarrow> cache_fill y z)"
    by (simp_all add: store_fill_def)
  from a b show "case a n of None \<Rightarrow> c n = None
      | Some x \<Rightarrow> (case c n of None \<Rightarrow> False | Some z \<Rightarrow> cache_fill x z)"
    by (auto split: option.splits intro: cache_fill_trans)
qed

lemma store_fill_update:
  "st r = Some c \<Longrightarrow> cache_fill c c' \<Longrightarrow> store_fill st (st(r \<mapsto> c'))"
  by (auto simp add: store_fill_def cache_fill_refl split: option.splits)

lemma store_fill_LatestConstrained:
  "st r = Some c \<Longrightarrow> LatestConstrained c x = (res, c') \<Longrightarrow> store_fill st (st(r \<mapsto> c'))"
  using LatestConstrained_cache_fill [of c x] by (auto intro: store_fill_update)

text \<open>
  One round of the dependency loop, once the dependency's cookbook is found and a version
  of it is selected.
\<close>

lemma dep_loop_round:
  assumes "as_string c2 = Some c" and "st r = Some dep_cb"
    and "LatestConstrained dep_cb c = (Inr (Some deb_cbv), dep_cb')"
  shows "dep_loop recurse st cbv ((r, c2) # rest) cd_list =
     (case check_or_add cbv deb_cbv r c cd_list of
        Inl e \<Rightarrow> Some (Inl e, st(r \<mapsto> dep_cb'))
      | Inr cd_list' \<Rightarrow>
          (case recurse (st(r \<mapsto> dep_cb')) deb_cbv cd_list' of
             None \<Rightarrow> None
           | Some (Inl nerr, st') \<Rightarrow> Some (Inl nerr, st')
           | Some (Inr cd_list'', st') \<Rightarrow> dep_loop recurse st' cbv rest cd_list''))"
  using assms by simp

lemma dep_loop_frame:
  assumes rec: "\<And>s v cd res s'. recurse s v cd = Some (res, s') \<Longrightarrow> store_fill s s'"
  shows "dep_loop recurse st cbv dep_list cd_list = Some (res, st') \<Longrightarrow> store_fill st st'"
proof (induction dep_list arbitrary: st cd_list)
  case Nil
  then show ?case by (simp add: store_fill_refl)
next
  case (Cons d rest)
  obtain r c2 where d: "d = (r, c2)" by (cases d) auto
  show ?case
  proof (cases "as_string c2")
    case None
    with Cons.prems d show ?thesis by (simp add: store_fill_refl)
  next
    case (Some c)
    show ?thesis
    proof (cases "st r")
      case None
      with Cons.prems d Some show ?thesis by (simp add: store_fill_refl)
    next
      case (Some dep_cb)
      obtain lres dep_cb' where lc: "LatestConstrained dep_cb c = (lres, dep_cb')"
        by (cases "LatestConstrained dep_cb c") auto
      have step: "store_fill st (st(r \<mapsto> dep_cb'))"
        using Some lc by (rule store_fill_LatestConstrained)
      show ?thesis
      proof (cases lres)
        case (Inl e)
        with Cons.prems d \<open>as_string c2 = Some c\<close> Some lc step show ?thesis by auto
      next
        case (Inr found)
        show ?thesis
        proof (cases found)
          case None
          with Cons.prems d \<open>as_string c2 = Some c\<close> Some lc step Inr show ?thesis by auto
        next
          case (Some deb_cbv)
          note round = dep_loop_round [where st = st and r = r and recurse = recurse
              and cbv = cbv and rest = rest and cd_list = cd_list,
              OF \<open>as_string c2 = Some c\<close> \<open>st r = Some dep_cb\<close> lc [unfolded Inr Some]]
          from Cons.prems have run:
            "(case check_or_add cbv deb_cbv r c cd_list of
                Inl e \<Rightarrow> Some (Inl e, st(r \<mapsto> dep_cb'))
              | Inr cd_list' \<Rightarrow>
                  (case recurse (st(r \<mapsto> dep_cb')) deb_cbv cd_list' of
                     None \<Rightarrow> None
                   | Some (Inl nerr, st') \<Rightarrow> Some (Inl nerr, st')
                   | Some (Inr cd_list'', st') \<Rightarrow> dep_loop recurse st' cbv rest cd_list'')) =
             Some (res, st')"
            unfolding d round .
          show ?thesis
          proof (cases "check_or_add cbv deb_cbv r c cd_list")
            case (Inl e)
            with run have "st' = st(r \<mapsto> dep_cb')" by simp
            with step show ?thesis by (simp only:)
          next
            case (Inr cd_list')
            show ?thesis
            proof (cases "recurse (st(r \<mapsto> dep_cb')) deb_cbv cd_list'")
              case None
              with run Inr show ?thesis by simp
            next
              case (Some out)
              obtain rres st1 where out: "out = (rres, st1)" by (cases out) auto
              have mid: "store_fill (st(r \<mapsto> dep_cb')) st1"
                using Some out by (auto intro: rec)
              show ?thesis
              proof (cases rres)
                case (Inl nerr)
                with run \<open>check_or_add cbv deb_cbv r c cd_list = Inr cd_list'\<close> Some out
                have "st' = st1" by simp
                with step mid show ?thesis by (auto intro: store_fill_trans)
              next
                case (Inr cd_list'')
                with run \<open>check_or_add cbv deb_cbv r c cd_list = Inr cd_list'\<close> Some out
                have "dep_loop recurse st1 cbv rest cd_list'' = Some (res, st')" by simp
                then have "store_fill st1 st'" by (rule Cons.IH)
                with step mid show ?thesis by (blast intro: store_fill_trans)
              qed
            qed
          qed
        qed
      qed
    qed
  qed
qed

lemma resolveDependencies_frame:
  "resolveDependencies n st cbv cd_list = Some (res, st') \<Longrightarrow> store_fill st st'"
proof (induction n arbitrary: st cbv cd_list res st')
  case 0
  then show ?case by simp
next
  case (Suc n)
  show ?case
  proof (cases "dep_list_of cbv")
    case None
    with Suc.prems show ?thesis by (simp add: store_fill_refl)
  next
    case (Some dep_list)
    with Suc.prems have "dep_loop (resolveDependencies n) st cbv dep_list cd_list = Some (res, st')"
      by simp
    then show ?thesis
      by (rule dep_loop_frame [rotated]) (rule Suc.IH)
  qed
qed

section \<open>Termination of the dependency walk\<close>

lemma store_fill_lookup:
  assumes "store_fill st s" and "s n = Some c"
  shows "\<exists>c0. st n = Some c0 \<and> cache_fill c0 c"
proof -
  from assms(1) have "case st n of None \<Rightarrow> s n = None
      | Some c0 \<Rightarrow> (case s n of None \<Rightarrow> False | Some c \<Rightarrow> cache_fill c0 c)"
    by (simp add: store_fill_def)
  with assms(2) show ?thesis by (auto split: option.splits)
qed

lemma store_fill_object:
  assumes "store_fill st s" and "s n = Some c" and "v \<in> version_objects c"
  shows "\<exists>c0. st n = Some c0 \<and> v \<in> version_objects c0"
proof -
  from store_fill_lookup [OF assms(1,2)] obtain c0 where "st n = Some c0" "cache_fill c0 c"
    by blast
  with assms(3) cache_fill_objects show ?thesis by blast
qed

text \<open>
  The loop returns when the recursive call returns on every version object of every
  declared dependency, in every store that the walk can reach.
\<close>

lemma dep_loop_returns:
  assumes frame: "\<And>s v cd res s'. recurse s v cd = Some (res, s') \<Longrightarrow> store_fill s s'"
    and rec: "\<And>r s c v cd. r \<in> fst ` set dep_list \<Longrightarrow> store_fill st0 s \<Longrightarrow> s r = Some c
                \<Longrightarrow> v \<in> version_objects c \<Longrightarrow> recurse s v cd \<noteq> None"
    and inv: "store_fill st0 st"
  shows "dep_loop recurse st cbv dep_list cd_list \<noteq> None"
  using rec inv
proof (induction dep_list arbitrary: st cd_list)
  case Nil
  then show ?case by simp
next
  case (Cons d rest)
  obtain r c2 where d: "d = (r, c2)" by (cases d) auto
  have rec_rest: "recurse s v cd \<noteq> None"
    if "r \<in> fst ` set rest" "store_fill st0 s" "s r = Some c" "v \<in> version_objects c"
    for r s c v cd
    using that by (intro Cons.prems(1) [of r s c v cd]) auto
  show ?case
  proof (cases "as_string c2")
    case None
    with d show ?thesis by simp
  next
    case (Some c)
    show ?thesis
    proof (cases "st r")
      case None
      with d Some show ?thesis by simp
    next
      case (Some dep_cb)
      obtain lres dep_cb' where lc: "LatestConstrained dep_cb c = (lres, dep_cb')"
        by (cases "LatestConstrained dep_cb c") auto
      have step: "store_fill st (st(r \<mapsto> dep_cb'))"
        using Some lc by (rule store_fill_LatestConstrained)
      have inv1: "store_fill st0 (st(r \<mapsto> dep_cb'))"
        using Cons.prems(2) step by (rule store_fill_trans)
      show ?thesis
      proof (cases lres)
        case (Inl e)
        with d \<open>as_string c2 = Some c\<close> Some lc show ?thesis by simp
      next
        case (Inr found)
        show ?thesis
        proof (cases found)
          case None
          with d \<open>as_string c2 = Some c\<close> Some lc Inr show ?thesis by simp
        next
          case (Some deb_cbv)
          note round = dep_loop_round [where st = st and r = r and recurse = recurse
              and cbv = cbv and rest = rest and cd_list = cd_list,
              OF \<open>as_string c2 = Some c\<close> \<open>st r = Some dep_cb\<close> lc [unfolded Inr Some]]
          have obj: "deb_cbv \<in> version_objects dep_cb'"
            using lc [unfolded Inr Some] by (rule LatestConstrained_object)
          show ?thesis
          proof (cases "check_or_add cbv deb_cbv r c cd_list")
            case (Inl e)
            then show ?thesis unfolding d round by simp
          next
            case (Inr cd_list')
            have "recurse (st(r \<mapsto> dep_cb')) deb_cbv cd_list' \<noteq> None"
            proof (rule Cons.prems(1))
              show "r \<in> fst ` set (d # rest)" using d by simp
              show "store_fill st0 (st(r \<mapsto> dep_cb'))" by (rule inv1)
              show "(st(r \<mapsto> dep_cb')) r = Some dep_cb'" by simp
              show "deb_cbv \<in> version_objects dep_cb'" by (rule obj)
            qed
            then obtain rres st1 where
              out: "recurse (st(r \<mapsto> dep_cb')) deb_cbv cd_list' = Some (rres, st1)"
              by (cases "recurse (st(r \<mapsto> dep_cb')) deb_cbv cd_list'") auto
            have inv2: "store_fill st0 st1"
              using inv1 frame [OF out] by (rule store_fill_trans)
            show ?thesis
            proof (cases rres)
              case (Inl nerr)
              with Inr out show ?thesis unfolding d round by simp
            next
              case (Inr cd_list'')
              have "dep_loop recurse st1 cbv rest cd_list'' \<noteq> None"
                using rec_rest inv2 by (rule Cons.IH)
              with Inr \<open>check_or_add cbv deb_cbv r c cd_list = Inr cd_list'\<close> out
              show ?thesis unfolding d round by simp
            qed
          qed
        qed
      qed
    qed
  qed
qed

lemma uniform_bound:
  assumes "finite D"
    and "\<And>r. r \<in> D \<Longrightarrow> \<exists>N::nat. Q N r"
    and mono: "\<And>N M r. Q N r \<Longrightarrow> N \<le> M \<Longrightarrow> Q M r"
  shows "\<exists>N. \<forall>r \<in> D. Q N r"
  using assms(1,2)
proof (induction D)
  case empty
  then show ?case by simp
next
  case (insert x F)
  then obtain N1 where n1: "\<forall>r \<in> F. Q N1 r" by auto
  from insert.prems obtain N2 where n2: "Q N2 x" by auto
  have "\<forall>r \<in> insert x F. Q (max N1 N2) r"
    using n1 n2 mono by (auto intro: mono [where M = "max N1 N2"])
  then show ?case ..
qed

lemma finite_version_objects: "finite (version_objects c)"
  by (simp add: version_objects_def)

lemma finite_declared_deps: "finite (declared_deps v)"
  by (simp add: declared_deps_def split: option.split)

lemma dependency_graph_eq:
  "dependency_graph st =
     (\<Union>n \<in> dom st. \<Union>c \<in> set_option (st n). \<Union>v \<in> version_objects c. {n} \<times> declared_deps v)"
  by (auto simp add: dependency_graph_def)

lemma finite_dependency_graph: "finite (dom st) \<Longrightarrow> finite (dependency_graph st)"
  by (simp add: dependency_graph_eq finite_version_objects finite_declared_deps)

text \<open>
  For every cookbook \<open>n\<close> there is a depth from which on the walk returns from every
  version object of \<open>n\<close>, in every store that is the given store up to filled caches.
\<close>

lemma resolveDependencies_returns_store:
  assumes fin: "finite (dom st)" and acyc: "acyclic (dependency_graph st)"
  shows "\<exists>N. \<forall>fuel \<ge> N. \<forall>s c v cd. store_fill st s \<longrightarrow> s n = Some c \<longrightarrow> v \<in> version_objects c
            \<longrightarrow> resolveDependencies fuel s v cd \<noteq> None"
proof -
  define Q where "Q N n \<longleftrightarrow> (\<forall>fuel \<ge> N. \<forall>s c v cd. store_fill st s \<longrightarrow> s n = Some c
      \<longrightarrow> v \<in> version_objects c \<longrightarrow> resolveDependencies fuel s v cd \<noteq> None)" for N :: nat and n
  have Q_mono: "\<And>N M r. Q N r \<Longrightarrow> N \<le> M \<Longrightarrow> Q M r"
    by (auto simp add: Q_def)
  have wf: "wf ((dependency_graph st)\<inverse>)"
    using finite_dependency_graph [OF fin] acyc by (rule finite_acyclic_wf_converse)
  have "\<exists>N. Q N n"
    using wf
  proof (induction n rule: wf_induct_rule)
    case (less n)
    define D where "D = {r. (n, r) \<in> dependency_graph st}"
    have "D = snd ` (dependency_graph st \<inter> ({n} \<times> UNIV))"
      by (force simp add: D_def)
    then have finD: "finite D"
      using finite_dependency_graph [OF fin] by simp
    have "\<And>r. r \<in> D \<Longrightarrow> \<exists>N. Q N r"
      using less.IH by (simp add: D_def)
    with finD obtain N where N: "\<forall>r \<in> D. Q N r"
      using uniform_bound [of D Q] Q_mono by blast
    have "Q (Suc N) n"
      unfolding Q_def
    proof (intro allI impI)
      fix fuel s c v cd
      assume fuel: "Suc N \<le> fuel" and inv: "store_fill st s" and sn: "s n = Some c"
        and v: "v \<in> version_objects c"
      from fuel obtain f where f: "fuel = Suc f" "N \<le> f" by (cases fuel) auto
      from store_fill_object [OF inv sn v] obtain c0 where
        c0: "st n = Some c0" "v \<in> version_objects c0" by blast
      show "resolveDependencies fuel s v cd \<noteq> None"
      proof (cases "dep_list_of v")
        case None
        with f show ?thesis by simp
      next
        case (Some dep_list)
        have deps: "fst ` set dep_list \<subseteq> D"
        proof
          fix r
          assume "r \<in> fst ` set dep_list"
          then have "r \<in> declared_deps v" using Some by (simp add: declared_deps_def)
          with c0 show "r \<in> D" by (auto simp add: D_def dependency_graph_def)
        qed
        have "dep_loop (resolveDependencies f) s v dep_list cd \<noteq> None"
        proof (rule dep_loop_returns [where ?st0.0 = st])
          show "\<And>s v cd res s'. resolveDependencies f s v cd = Some (res, s') \<Longrightarrow> store_fill s s'"
            by (rule resolveDependencies_frame)
          show "store_fill st s" by (rule inv)
          show "\<And>r s c v cd. r \<in> fst ` set dep_list \<Longrightarrow> store_fill st s \<Longrightarrow> s r = Some c
                \<Longrightarrow> v \<in> version_objects c \<Longrightarrow> resolveDependencies f s v cd \<noteq> None"
            using deps N f(2) by (auto simp add: Q_def)
        qed
        with Some f show ?thesis by simp
      qed
    qed
    then show ?case ..
  qed
  then show ?thesis by (simp add: Q_def)
qed

lemma needed_cookbooks_frame:
  "needed_cookbooks fuel st names cd_list = Some (res, st') \<Longrightarrow> store_fill st st'"
proof (induction names arbitrary: st cd_list)
  case Nil
  then show ?case by (simp add: store_fill_refl)
next
  case (Cons cbName rest)
  show ?case
  proof (cases "st cbName")
    case None
    with Cons.prems show ?thesis by (simp add: store_fill_refl)
  next
    case (Some c)
    show ?thesis
    proof (cases "map_of cd_list cbName")
      case None
      with Cons.prems Some show ?thesis by (simp add: store_fill_refl)
    next
      case (Some cs)
      show ?thesis
      proof (cases "cs = []")
        case True
        with Cons.prems \<open>st cbName = Some c\<close> Some show ?thesis by (simp add: store_fill_refl)
      next
        case False
        obtain lres c' where lc: "LatestConstrained c (cs ! 0) = (lres, c')"
          by (cases "LatestConstrained c (cs ! 0)") auto
        have step: "store_fill st (st(cbName \<mapsto> c'))"
          using \<open>st cbName = Some c\<close> lc by (rule store_fill_LatestConstrained)
        from Cons.prems \<open>st cbName = Some c\<close> Some False lc have run:
          "(case lres of
              Inl e \<Rightarrow> Some (Inl e, st(cbName \<mapsto> c'))
            | Inr None \<Rightarrow> Some (Inl (NoCookbookFound (Name c) (cs ! 0)), st(cbName \<mapsto> c'))
            | Inr (Some cbv) \<Rightarrow>
                (case resolveDependencies fuel (st(cbName \<mapsto> c')) cbv cd_list of
                   None \<Rightarrow> None
                 | Some (Inl nerr, st') \<Rightarrow> Some (Inl nerr, st')
                 | Some (Inr cd_list', st') \<Rightarrow> needed_cookbooks fuel st' rest cd_list')) =
           Some (res, st')"
          by (simp split: sum.splits option.splits)
        show ?thesis
        proof (cases lres)
          case (Inl e)
          with run have "st' = st(cbName \<mapsto> c')" by simp
          with step show ?thesis by (simp only:)
        next
          case (Inr found)
          show ?thesis
          proof (cases found)
            case None
            with run Inr have "st' = st(cbName \<mapsto> c')" by simp
            with step show ?thesis by (simp only:)
          next
            case (Some cbv)
            show ?thesis
            proof (cases "resolveDependencies fuel (st(cbName \<mapsto> c')) cbv cd_list")
              case None
              with run Inr Some show ?thesis by simp
            next
              case (Some out)
              obtain rres st1 where out: "out = (rres, st1)" by (cases out) auto
              have mid: "store_fill (st(cbName \<mapsto> c')) st1"
                using Some out by (auto intro: resolveDependencies_frame)
              show ?thesis
              proof (cases rres)
                case (Inl nerr)
                with run Inr \<open>found = Some cbv\<close> Some out have "st' = st1" by simp
                with step mid show ?thesis by (auto intro: store_fill_trans)
              next
                case (Inr cd_list')
                with run \<open>lres = Inr found\<close> \<open>found = Some cbv\<close> Some out
                have "needed_cookbooks fuel st1 rest cd_list' = Some (res, st')" by simp
                then have "store_fill st1 st'" by (rule Cons.IH)
                with step mid show ?thesis by (blast intro: store_fill_trans)
              qed
            qed
          qed
        qed
      qed
    qed
  qed
qed

lemma DependsCookbooks_frame:
  assumes "DependsCookbooks fuel st run_list env_constraints = Some (res, st')"
  shows "store_fill st st'"
proof (cases "env_constraint_loop env_constraints (run_list_table run_list [])")
  case (Inl err)
  with assms show ?thesis by (simp add: DependsCookbooks_def store_fill_refl)
next
  case (Inr cd_list)
  with assms obtain r where "needed_cookbooks fuel st (run_list_ref run_list) cd_list = Some (r, st')"
    by (auto simp add: DependsCookbooks_def split: option.splits sum.splits)
  then show ?thesis by (rule needed_cookbooks_frame)
qed

lemma needed_cookbooks_returns:
  assumes rec: "\<And>n s c v cd. store_fill st0 s \<Longrightarrow> s n = Some c \<Longrightarrow> v \<in> version_objects c
                  \<Longrightarrow> resolveDependencies fuel s v cd \<noteq> None"
    and inv: "store_fill st0 st"
  shows "needed_cookbooks fuel st names cd_list \<noteq> None"
  using inv
proof (induction names arbitrary: st cd_list)
  case Nil
  then show ?case by simp
next
  case (Cons cbName rest)
  show ?case
  proof (cases "st cbName")
    case None
    then show ?thesis by simp
  next
    case (Some c)
    show ?thesis
    proof (cases "map_of cd_list cbName")
      case None
      with Some show ?thesis by simp
    next
      case (Some cs)
      show ?thesis
      proof (cases "cs = []")
        case True
        with \<open>st cbName = Some c\<close> Some show ?thesis by simp
      next
        case False
        obtain lres c' where lc: "LatestConstrained c (cs ! 0) = (lres, c')"
          by (cases "LatestConstrained c (cs ! 0)") auto
        have step: "store_fill st (st(cbName \<mapsto> c'))"
          using \<open>st cbName = Some c\<close> lc by (rule store_fill_LatestConstrained)
        have inv1: "store_fill st0 (st(cbName \<mapsto> c'))"
          using Cons.prems step by (rule store_fill_trans)
        have unfold: "needed_cookbooks fuel st (cbName # rest) cd_list =
          (case lres of
              Inl e \<Rightarrow> Some (Inl e, st(cbName \<mapsto> c'))
            | Inr None \<Rightarrow> Some (Inl (NoCookbookFound (Name c) (cs ! 0)), st(cbName \<mapsto> c'))
            | Inr (Some cbv) \<Rightarrow>
                (case resolveDependencies fuel (st(cbName \<mapsto> c')) cbv cd_list of
                   None \<Rightarrow> None
                 | Some (Inl nerr, st') \<Rightarrow> Some (Inl nerr, st')
                 | Some (Inr cd_list', st') \<Rightarrow> needed_cookbooks fuel st' rest cd_list'))"
          using \<open>st cbName = Some c\<close> Some False lc
          by (simp split: sum.splits option.splits)
        show ?thesis
        proof (cases lres)
          case (Inl e)
          then show ?thesis unfolding unfold by simp
        next
          case (Inr found)
          show ?thesis
          proof (cases found)
            case None
            with Inr show ?thesis unfolding unfold by simp
          next
            case (Some cbv)
            have obj: "cbv \<in> version_objects c'"
              using lc [unfolded Inr Some] by (rule LatestConstrained_object)
            have "resolveDependencies fuel (st(cbName \<mapsto> c')) cbv cd_list \<noteq> None"
            proof (rule rec)
              show "store_fill st0 (st(cbName \<mapsto> c'))" by (rule inv1)
              show "(st(cbName \<mapsto> c')) cbName = Some c'" by simp
              show "cbv \<in> version_objects c'" by (rule obj)
            qed
            then obtain rres st1 where
              out: "resolveDependencies fuel (st(cbName \<mapsto> c')) cbv cd_list = Some (rres, st1)"
              by (cases "resolveDependencies fuel (st(cbName \<mapsto> c')) cbv cd_list") auto
            have inv2: "store_fill st0 st1"
              using inv1 resolveDependencies_frame [OF out] by (rule store_fill_trans)
            show ?thesis
            proof (cases rres)
              case (Inl nerr)
              with Inr Some out show ?thesis unfolding unfold by simp
            next
              case (Inr cd_list')
              have "needed_cookbooks fuel st1 rest cd_list' \<noteq> None"
                using inv2 by (rule Cons.IH)
              with Inr \<open>lres = Inr found\<close> Some out show ?thesis unfolding unfold by simp
            qed
          qed
        qed
      qed
    qed
  qed
qed

text \<open>
  C10: in a store with finitely many cookbooks whose dependency graph is acyclic, the
  dependency walk returns from every version object and the whole resolution returns for
  every run list and environment, once the depth of recursion allowed is large enough.
\<close>

theorem resolveDependencies_terminates:
  assumes "finite (dom st)" and "acyclic (dependency_graph st)"
  shows "\<exists>n. \<forall>fuel \<ge> n.
           resolveDependencies fuel st cbv cd_list \<noteq> None \<and>
           DependsCookbooks fuel st run_list env_constraints \<noteq> None"
proof -
  define Q where "Q N n \<longleftrightarrow> (\<forall>fuel \<ge> N. \<forall>s c v cd. store_fill st s \<longrightarrow> s n = Some c
      \<longrightarrow> v \<in> version_objects c \<longrightarrow> resolveDependencies fuel s v cd \<noteq> None)" for N :: nat and n
  have Q_mono: "\<And>N M r. Q N r \<Longrightarrow> N \<le> M \<Longrightarrow> Q M r"
    by (auto simp add: Q_def)
  have each: "\<And>n. \<exists>N. Q N n"
    unfolding Q_def by (rule resolveDependencies_returns_store [OF assms])
  obtain N where N: "\<forall>n \<in> dom st. Q N n"
    using uniform_bound [of "dom st" Q] assms(1) each Q_mono by blast
  have all: "resolveDependencies fuel s v cd \<noteq> None"
    if "N \<le> fuel" "store_fill st s" "s n = Some c" "v \<in> version_objects c"
    for fuel s n c v cd
  proof -
    from store_fill_lookup [OF that(2,3)] have "n \<in> dom st" by auto
    with N that show ?thesis by (auto simp add: Q_def)
  qed
  have "resolveDependencies fuel st cbv cd_list \<noteq> None \<and>
        DependsCookbooks fuel st run_list env_constraints \<noteq> None" if "Suc N \<le> fuel" for fuel
  proof
    from that obtain f where f: "fuel = Suc f" "N \<le> f" by (cases fuel) auto
    show "resolveDependencies fuel st cbv cd_list \<noteq> None"
    proof (cases "dep_list_of cbv")
      case None
      with f show ?thesis by simp
    next
      case (Some dep_list)
      have "dep_loop (resolveDependencies f) st cbv dep_list cd_list \<noteq> None"
      proof (rule dep_loop_returns [where ?st0.0 = st])
        show "\<And>s v cd res s'. resolveDependencies f s v cd = Some (res, s') \<Longrightarrow> store_fill s s'"
          by (rule resolveDependencies_frame)
        show "store_fill st st" by (rule store_fill_refl)
        show "\<And>r s c v cd. r \<in> fst ` set dep_list \<Longrightarrow> store_fill st s \<Longrightarrow> s r = Some c
              \<Longrightarrow> v \<in> version_objects c \<Longrightarrow> resolveDependencies f s v cd \<noteq> None"
          using all f(2) by blast
      qed
      with Some f show ?thesis by simp
    qed
    have needed: "needed_cookbooks fuel st (run_list_ref run_list) cd \<noteq> None" for cd
    proof (rule needed_cookbooks_returns [where ?st0.0 = st])
      show "store_fill st st" by (rule store_fill_refl)
      show "\<And>n s c v cd. store_fill st s \<Longrightarrow> s n = Some c \<Longrightarrow> v \<in> version_objects c
              \<Longrightarrow> resolveDependencies fuel s v cd \<noteq> None"
        using all that by (meson Suc_leD)
    qed
    show "DependsCookbooks fuel st run_list env_constraints \<noteq> None"
    proof (cases "env_constraint_loop env_constraints (run_list_table run_list [])")
      case (Inl err)
      then show ?thesis by (simp add: DependsCookbooks_def)
    next
      case (Inr cd)
      from needed [of cd] obtain r s where
        "needed_cookbooks fuel st (run_list_ref run_list) cd = Some (r, s)"
        by (cases "needed_cookbooks fuel st (run_list_ref run_list) cd") auto
      with Inr show ?thesis by (simp add: DependsCookbooks_def split: sum.splits)
    qed
  qed
  then show ?thesis by blast
qed

lemma abc_store_acyclic: "acyclic (dependency_graph (abc_store bc_deps))"
proof -
  define f :: "string \<Rightarrow> nat" where
    "f n = (if n = ''a'' then 2 else if n = ''c'' then 1 else 0)" for n
  have "dependency_graph (abc_store bc_deps) \<subseteq> (measure f)\<inverse>"
    by (auto simp add: dependency_graph_def abc_store_def version_objects_def declared_deps_def
        dep_list_of_def example_cookbook_def example_version_def new_version_object_def
        bc_deps_def f_def split: if_splits)
  moreover have "acyclic ((measure f)\<inverse>)"
    by (simp add: acyclic_converse wf_acyclic)
  ultimately show ?thesis by (rule acyclic_subset [rotated])
qed

text \<open>C10 on the store in which \<^verbatim>\<open>a\<close> depends on \<^verbatim>\<open>b\<close> and \<^verbatim>\<open>c\<close>, and \<^verbatim>\<open>c\<close> on \<^verbatim>\<open>b\<close>.\<close>

theorem resolveDependencies_terminates_witness:
  "finite (dom (abc_store bc_deps)) \<and> acyclic (dependency_graph (abc_store bc_deps)) \<and>
   (\<exists>n. \<forall>fuel \<ge> n.
      resolveDependencies fuel (abc_store bc_deps) (example_version ''a'' ''1.0.0'' bc_deps) [] \<noteq> None \<and>
      DependsCookbooks fuel (abc_store bc_deps) [''a''] [] \<noteq> None)"
proof -
  have fin: "finite (dom (abc_store bc_deps))"
    by (simp add: abc_store_def)
  show ?thesis
    using resolveDependencies_terminates [OF fin abc_store_acyclic] fin abc_store_acyclic
    by blast
qed

text \<open>
  Without acyclicity the walk need not return: for a cookbook that depends on itself no
  depth is enough.
\<close>

lemma self_dependency_walk:
  assumes "s r = Some c" and "latest c = Some v" and "dep_list_of v = Some [(r, JString [])]"
  shows "resolveDependencies fuel s v [(r, [[]])] = None"
proof (induction fuel)
  case 0
  show ?case by simp
next
  case (Suc fuel)
  have str: "as_string (JString []) = Some []"
    by (simp add: as_string_def)
  have lc: "LatestConstrained c [] = (Inr (Some v), c)"
    using assms(2) by (simp add: LatestConstrained_def LatestVersion_def)
  have upd: "s(r \<mapsto> c) = s"
    using assms(1) by (rule map_upd_triv)
  have chk: "check_or_add v v r [] [(r, [[]])] = Inr [(r, [[]])]"
    by (simp add: check_or_add_def)
  have "dep_loop (resolveDependencies fuel) s v [(r, JString [])] [(r, [[]])] = None"
    unfolding dep_loop_round [where st = s and r = r and recurse = "resolveDependencies fuel"
        and cbv = v and rest = "[]" and cd_list = "[(r, [[]])]", OF str assms(1) lc] chk upd
    using Suc.IH by simp
  with assms(3) show ?case by simp
qed

lemma self_dependency_never_returns:
  "DependsCookbooks fuel self_store [''a''] [] = None"
proof -
  define v where "v = example_version ''a'' ''1.0.0'' [(''a'', JString [])]"
  define c where "c = example_cookbook ''a'' [(''1.0.0'', [(''a'', JString [])])]"
  have look: "self_store ''a'' = Some c"
    by (simp add: self_store_def c_def)
  have lc: "LatestConstrained c [] = (Inr (Some v), c\<lparr>latest := Some v\<rparr>)"
    by (simp add: c_def v_def cookbook_eval go_eval)
  have deps: "dep_list_of v = Some [(''a'', JString [])]"
    by (simp add: v_def dep_list_of_def example_version_def)
  have walk: "resolveDependencies fuel (self_store(''a'' \<mapsto> c\<lparr>latest := Some v\<rparr>)) v [(''a'', [[]])] = None"
    by (rule self_dependency_walk [where c = "c\<lparr>latest := Some v\<rparr>"]) (simp_all add: deps)
  have table: "env_constraint_loop [] (run_list_table [''a''] []) = Inr [(''a'', [[]])]"
    by (simp add: run_list_entry_def map_set_def go_eval)
  have names: "run_list_ref [''a''] = [''a'']"
    by (simp add: run_list_ref_def run_list_entry_def go_eval)
  have "needed_cookbooks fuel self_store [''a''] [(''a'', [[]])] = None"
    unfolding needed_cookbooks.simps look using walk lc by simp
  then show ?thesis
    unfolding DependsCookbooks_def table names by simp
qed

text \<open>A result that the walk returns does not depend on the depth allowed.\<close>

lemma dep_loop_mono:
  assumes "\<And>s v cd out. rec1 s v cd = Some out \<Longrightarrow> rec2 s v cd = Some out"
  shows "dep_loop rec1 st cbv dep_list cd_list = Some out
           \<Longrightarrow> dep_loop rec2 st cbv dep_list cd_list = Some out"
proof (induction dep_list arbitrary: st cd_list)
  case Nil
  then show ?case by simp
next
  case (Cons d rest)
  obtain r c2 where d: "d = (r, c2)" by (cases d) auto
  show ?case
  proof (cases "\<exists>c dep_cb deb_cbv dep_cb' cd_list'. as_string c2 = Some c \<and> st r = Some dep_cb \<and>
      LatestConstrained dep_cb c = (Inr (Some deb_cbv), dep_cb') \<and>
      check_or_add cbv deb_cbv r c cd_list = Inr cd_list'")
    case False
    then have "dep_loop rec2 st cbv (d # rest) cd_list = dep_loop rec1 st cbv (d # rest) cd_list"
      unfolding d by (auto split: option.splits sum.splits prod.splits)
    with Cons.prems show ?thesis by simp
  next
    case True
    then obtain c dep_cb deb_cbv dep_cb' cd_list' where
      h: "as_string c2 = Some c" "st r = Some dep_cb"
        "LatestConstrained dep_cb c = (Inr (Some deb_cbv), dep_cb')"
        "check_or_add cbv deb_cbv r c cd_list = Inr cd_list'"
      by blast
    note round1 = dep_loop_round [where st = st and r = r and recurse = rec1
        and cbv = cbv and rest = rest and cd_list = cd_list, OF h(1,2,3)]
    note round2 = dep_loop_round [where st = st and r = r and recurse = rec2
        and cbv = cbv and rest = rest and cd_list = cd_list, OF h(1,2,3)]
    from Cons.prems obtain rres st1 where
      out1: "rec1 (st(r \<mapsto> dep_cb')) deb_cbv cd_list' = Some (rres, st1)"
      unfolding d round1 h(4) by (auto split: option.splits)
    then have out2: "rec2 (st(r \<mapsto> dep_cb')) deb_cbv cd_list' = Some (rres, st1)"
      by (rule assms)
    show ?thesis
    proof (cases rres)
      case (Inl nerr)
      with Cons.prems out1 have "out = (Inl nerr, st1)"
        unfolding d round1 h(4) by simp
      with Inl out2 show ?thesis unfolding d round2 h(4) by simp
    next
      case (Inr cd_list'')
      with Cons.prems out1 have "dep_loop rec1 st1 cbv rest cd_list'' = Some out"
        unfolding d round1 h(4) by simp
      then have "dep_loop rec2 st1 cbv rest cd_list'' = Some out" by (rule Cons.IH)
      with Inr out2 show ?thesis unfolding d round2 h(4) by simp
    qed
  qed
qed

lemma resolveDependencies_Suc:
  "resolveDependencies n st cbv cd_list = Some out
     \<Longrightarrow> resolveDependencies (Suc n) st cbv cd_list = Some out"
proof (induction n arbitrary: st cbv cd_list out)
  case 0
  then show ?case by simp
next
  case (Suc n)
  show ?case
  proof (cases "dep_list_of cbv")
    case None
    with Suc.prems show ?thesis by simp
  next
    case (Some dep_list)
    with Suc.prems have "dep_loop (resolveDependencies n) st cbv dep_list cd_list = Some out"
      by simp
    then have "dep_loop (resolveDependencies (Suc n)) st cbv dep_list cd_list = Some out"
      by (rule dep_loop_mono [rotated]) (rule Suc.IH)
    with Some show ?thesis by simp
  qed
qed

lemma resolveDependencies_more_fuel:
  "resolveDependencies n st cbv cd_list = Some out
     \<Longrightarrow> resolveDependencies (n + k) st cbv cd_list = Some out"
  by (induction k) (simp_all add: resolveDependencies_Suc del: resolveDependencies.simps)

section \<open>Resolving again on the store that a resolution leaves\<close>

lemma cache_fill_same:
  assumes "cache_fill c ca"
  shows "sortedVersions ca = sortedVersions c" and "Name ca = Name c"
  using assms by (auto simp add: cache_fill_def split: list.splits)

text \<open>
  A selection made on a cookbook is repeated, with the same outcome and without any
  further write, on a cookbook whose cache is at least as filled as the selection left it.
\<close>

lemma LatestConstrained_filled:
  assumes "cache_fill c ca" and "LatestConstrained c x = (lres, c')" and "cache_fill c' ca"
  shows "LatestConstrained ca x = (lres, ca)"
proof (cases "x = []")
  case False
  with assms(2) cache_fill_same(1) [OF assms(1)] show ?thesis
    by (auto simp add: LatestConstrained_def Let_def split: if_splits)
next
  case True
  show ?thesis
  proof (cases "latest c")
    case (Some v)
    with assms(1) have "ca = c" by (simp add: cache_fill_def)
    moreover from Some assms(2) True have "c' = c"
      by (auto simp add: LatestConstrained_def LatestVersion_def)
    ultimately show ?thesis using assms(2) by simp
  next
    case None
    show ?thesis
    proof (cases "sortedVersions c")
      case Nil
      with assms(1) have "ca = c" by (simp add: cache_fill_def)
      moreover from None Nil assms(2) True have "c' = c"
        by (auto simp add: LatestConstrained_def LatestVersion_def)
      ultimately show ?thesis using assms(2) by simp
    next
      case (Cons v vs)
      with None assms(2) True have c': "c' = c\<lparr>latest := Some v\<rparr>" and lres: "lres = Inr (Some v)"
        by (auto simp add: LatestConstrained_def LatestVersion_def)
      from c' assms(3) have "ca = c\<lparr>latest := Some v\<rparr>"
        by (simp add: cache_fill_def)
      with lres True show ?thesis
        by (simp add: LatestConstrained_def LatestVersion_def)
    qed
  qed
qed

lemma store_fill_None:
  assumes "store_fill st sa" and "st n = None"
  shows "sa n = None"
proof -
  from assms(1) have "case st n of None \<Rightarrow> sa n = None
      | Some c \<Rightarrow> (case sa n of None \<Rightarrow> False | Some ca \<Rightarrow> cache_fill c ca)"
    by (simp add: store_fill_def)
  with assms(2) show ?thesis by simp
qed

lemma store_fill_Some:
  assumes "store_fill st sa" and "st n = Some c"
  shows "\<exists>ca. sa n = Some ca \<and> cache_fill c ca"
proof -
  from assms(1) have "case st n of None \<Rightarrow> sa n = None
      | Some c \<Rightarrow> (case sa n of None \<Rightarrow> False | Some ca \<Rightarrow> cache_fill c ca)"
    by (simp add: store_fill_def)
  with assms(2) show ?thesis by (auto split: option.splits)
qed

text \<open>
  The selection step of a loop round, repeated on a store \<open>sa\<close> that is at least as
  filled as the store after the step.
\<close>

lemma selection_filled:
  assumes "store_fill st sa" and "st r = Some c" and "LatestConstrained c x = (lres, c')"
    and "store_fill (st(r \<mapsto> c')) sa"
  shows "\<exists>ca. sa r = Some ca \<and> LatestConstrained ca x = (lres, ca) \<and> sa(r \<mapsto> ca) = sa
           \<and> Name ca = Name c"
proof -
  from store_fill_Some [OF assms(1,2)] obtain ca where ca: "sa r = Some ca" "cache_fill c ca"
    by blast
  have "(st(r \<mapsto> c')) r = Some c'" by simp
  from store_fill_Some [OF assms(4) this] ca(1) have "cache_fill c' ca" by simp
  with ca(2) assms(3) have "LatestConstrained ca x = (lres, ca)"
    by (rule LatestConstrained_filled)
  moreover have "sa(r \<mapsto> ca) = sa" using ca(1) by (rule map_upd_triv)
  ultimately show ?thesis using ca cache_fill_same(2) by blast
qed

lemma dep_loop_idem:
  assumes frame: "\<And>s v cd res s'. recurse s v cd = Some (res, s') \<Longrightarrow> store_fill s s'"
    and idem: "\<And>s v cd res s' sa. recurse s v cd = Some (res, s') \<Longrightarrow> store_fill s sa
                 \<Longrightarrow> store_fill s' sa \<Longrightarrow> recurse sa v cd = Some (res, sa)"
  shows "dep_loop recurse st cbv dep_list cd_list = Some (res, st') \<Longrightarrow> store_fill st sa
           \<Longrightarrow> store_fill st' sa \<Longrightarrow> dep_loop recurse sa cbv dep_list cd_list = Some (res, sa)"
proof (induction dep_list arbitrary: st cd_list)
  case Nil
  then show ?case by simp
next
  case (Cons d rest)
  obtain r c2 where d: "d = (r, c2)" by (cases d) auto
  show ?case
  proof (cases "as_string c2")
    case None
    with Cons.prems(1) d show ?thesis by simp
  next
    case (Some c)
    show ?thesis
    proof (cases "st r")
      case None
      with store_fill_None [OF Cons.prems(2)] have "sa r = None" by simp
      with Cons.prems(1) d Some None show ?thesis by simp
    next
      case (Some dep_cb)
      obtain lres dep_cb' where lc: "LatestConstrained dep_cb c = (lres, dep_cb')"
        by (cases "LatestConstrained dep_cb c") auto
      have tail: "store_fill (st(r \<mapsto> dep_cb')) st'"
      proof -
        have "dep_loop recurse st cbv ((r, c2) # rest) cd_list = Some (res, st')"
          using Cons.prems(1) d by simp
        then show ?thesis
          using \<open>as_string c2 = Some c\<close> Some lc
          by (auto simp add: store_fill_refl split: sum.splits option.splits prod.splits
              intro: store_fill_trans frame dep_loop_frame [OF frame])
      qed
      have upper: "store_fill (st(r \<mapsto> dep_cb')) sa"
        using tail Cons.prems(3) by (rule store_fill_trans)
      from selection_filled [OF Cons.prems(2) Some lc upper] obtain ca where
        ca: "sa r = Some ca" "LatestConstrained ca c = (lres, ca)" "sa(r \<mapsto> ca) = sa"
        by blast
      show ?thesis
      proof (cases "\<exists>deb_cbv. lres = Inr (Some deb_cbv)")
        case False
        then have "dep_loop recurse sa cbv ((r, c2) # rest) cd_list =
            (case lres of Inl e \<Rightarrow> Some (Inl e, sa) | Inr _ \<Rightarrow> Some (Inl (NoDepVersion r c), sa))"
          using \<open>as_string c2 = Some c\<close> ca
          by (auto split: sum.splits option.splits)
        moreover from False have "dep_loop recurse st cbv ((r, c2) # rest) cd_list =
            (case lres of Inl e \<Rightarrow> Some (Inl e, st(r \<mapsto> dep_cb'))
               | Inr _ \<Rightarrow> Some (Inl (NoDepVersion r c), st(r \<mapsto> dep_cb')))"
          using \<open>as_string c2 = Some c\<close> Some lc
          by (auto split: sum.splits option.splits)
        ultimately show ?thesis
          using Cons.prems(1) d by (auto split: sum.splits)
      next
        case True
        then obtain deb_cbv where lres: "lres = Inr (Some deb_cbv)" by blast
        note round = dep_loop_round [where st = st and r = r and recurse = recurse
            and cbv = cbv and rest = rest and cd_list = cd_list,
            OF \<open>as_string c2 = Some c\<close> Some lc [unfolded lres]]
        note round_a = dep_loop_round [where st = sa and r = r and recurse = recurse
            and cbv = cbv and rest = rest and cd_list = cd_list,
            OF \<open>as_string c2 = Some c\<close> ca(1) ca(2) [unfolded lres], unfolded ca(3)]
        from Cons.prems(1) have run:
          "(case check_or_add cbv deb_cbv r c cd_list of
              Inl e \<Rightarrow> Some (Inl e, st(r \<mapsto> dep_cb'))
            | Inr cd_list' \<Rightarrow>
                (case recurse (st(r \<mapsto> dep_cb')) deb_cbv cd_list' of
                   None \<Rightarrow> None
                 | Some (Inl nerr, st') \<Rightarrow> Some (Inl nerr, st')
                 | Some (Inr cd_list'', st') \<Rightarrow> dep_loop recurse st' cbv rest cd_list'')) =
           Some (res, st')"
          unfolding d round .
        show ?thesis
        proof (cases "check_or_add cbv deb_cbv r c cd_list")
          case (Inl e)
          with run have "res = Inl e" by simp
          with Inl show ?thesis unfolding d round_a by simp
        next
          case (Inr cd_list')
          from run Inr obtain rres st1 where
            out: "recurse (st(r \<mapsto> dep_cb')) deb_cbv cd_list' = Some (rres, st1)"
            by (cases "recurse (st(r \<mapsto> dep_cb')) deb_cbv cd_list'") auto
          show ?thesis
          proof (cases rres)
            case (Inl nerr)
            with run Inr out have res: "res = Inl nerr" and st1: "st1 = st'" by simp_all
            have "recurse sa deb_cbv cd_list' = Some (rres, sa)"
              using out upper Cons.prems(3) [folded st1] by (rule idem)
            with Inl res Inr show ?thesis unfolding d round_a by simp
          next
            case (Inr cd_list'')
            with run \<open>check_or_add cbv deb_cbv r c cd_list = Inr cd_list'\<close> out
            have rest: "dep_loop recurse st1 cbv rest cd_list'' = Some (res, st')" by simp
            have "store_fill st1 st'"
            proof (rule dep_loop_frame [where recurse = recurse])
              show "\<And>s v cd res s'. recurse s v cd = Some (res, s') \<Longrightarrow> store_fill s s'"
                by (rule frame)
              show "dep_loop recurse st1 cbv rest cd_list'' = Some (res, st')"
                by (rule rest)
            qed
            then have up1: "store_fill st1 sa"
              using Cons.prems(3) by (rule store_fill_trans)
            have "recurse sa deb_cbv cd_list' = Some (rres, sa)"
              using out upper up1 by (rule idem)
            moreover have "dep_loop recurse sa cbv rest cd_list'' = Some (res, sa)"
              using rest up1 Cons.prems(3) by (rule Cons.IH)
            ultimately show ?thesis
              using Inr \<open>check_or_add cbv deb_cbv r c cd_list = Inr cd_list'\<close>
              unfolding d round_a by simp
          qed
        qed
      qed
    qed
  qed
qed

lemma resolveDependencies_idem:
  "resolveDependencies n st cbv cd_list = Some (res, st') \<Longrightarrow> store_fill st sa
     \<Longrightarrow> store_fill st' sa \<Longrightarrow> resolveDependencies n sa cbv cd_list = Some (res, sa)"
proof (induction n arbitrary: st cbv cd_list res st' sa)
  case 0
  then show ?case by simp
next
  case (Suc n)
  show ?case
  proof (cases "dep_list_of cbv")
    case None
    with Suc.prems(1) show ?thesis by simp
  next
    case (Some dep_list)
    with Suc.prems(1) have run: "dep_loop (resolveDependencies n) st cbv dep_list cd_list = Some (res, st')"
      by simp
    have "dep_loop (resolveDependencies n) sa cbv dep_list cd_list = Some (res, sa)"
    proof (rule dep_loop_idem [where recurse = "resolveDependencies n" and st = st and st' = st'])
      show "\<And>s v cd res s'. resolveDependencies n s v cd = Some (res, s') \<Longrightarrow> store_fill s s'"
        by (rule resolveDependencies_frame)
      show "\<And>s v cd res s' sa. resolveDependencies n s v cd = Some (res, s') \<Longrightarrow> store_fill s sa
              \<Longrightarrow> store_fill s' sa \<Longrightarrow> resolveDependencies n sa v cd = Some (res, sa)"
        by (rule Suc.IH)
      show "dep_loop (resolveDependencies n) st cbv dep_list cd_list = Some (res, st')" by (rule run)
      show "store_fill st sa" by (rule Suc.prems(2))
      show "store_fill st' sa" by (rule Suc.prems(3))
    qed
    with Some show ?thesis by simp
  qed
qed

lemma needed_cookbooks_idem:
  "needed_cookbooks fuel st names cd_list = Some (res, st') \<Longrightarrow> store_fill st sa
     \<Longrightarrow> store_fill st' sa \<Longrightarrow> needed_cookbooks fuel sa names cd_list = Some (res, sa)"
proof (induction names arbitrary: st cd_list)
  case Nil
  then show ?case by simp
next
  case (Cons cbName rest)
  show ?case
  proof (cases "st cbName")
    case None
    with store_fill_None [OF Cons.prems(2)] have "sa cbName = None" by simp
    with Cons.prems(1) None show ?thesis by simp
  next
    case (Some c)
    from store_fill_Some [OF Cons.prems(2) Some] obtain ca0 where ca0: "sa cbName = Some ca0"
      by blast
    show ?thesis
    proof (cases "map_of cd_list cbName")
      case None
      with Cons.prems(1) Some ca0 show ?thesis by simp
    next
      case (Some cs)
      show ?thesis
      proof (cases "cs = []")
        case True
        with Cons.prems(1) \<open>st cbName = Some c\<close> Some ca0 show ?thesis by simp
      next
        case False
        obtain lres c' where lc: "LatestConstrained c (cs ! 0) = (lres, c')"
          by (cases "LatestConstrained c (cs ! 0)") auto
        have unfold: "needed_cookbooks fuel s (cbName # rest) cd_list =
          (case lres of
              Inl e \<Rightarrow> Some (Inl e, s(cbName \<mapsto> x'))
            | Inr None \<Rightarrow> Some (Inl (NoCookbookFound (Name x) (cs ! 0)), s(cbName \<mapsto> x'))
            | Inr (Some cbv) \<Rightarrow>
                (case resolveDependencies fuel (s(cbName \<mapsto> x')) cbv cd_list of
                   None \<Rightarrow> None
                 | Some (Inl nerr, st') \<Rightarrow> Some (Inl nerr, st')
                 | Some (Inr cd_list', st') \<Rightarrow> needed_cookbooks fuel st' rest cd_list'))"
          if "s cbName = Some x" "LatestConstrained x (cs ! 0) = (lres, x')" for s x x'
          using that Some False by (simp split: sum.splits option.splits)
        note run = Cons.prems(1) [unfolded unfold [where s = st, OF \<open>st cbName = Some c\<close> lc]]
        have tail: "store_fill (st(cbName \<mapsto> c')) st'"
          using run
          by (auto simp add: store_fill_refl split: sum.splits option.splits prod.splits
              intro: store_fill_trans resolveDependencies_frame needed_cookbooks_frame)
        have upper: "store_fill (st(cbName \<mapsto> c')) sa"
          using tail Cons.prems(3) by (rule store_fill_trans)
        from selection_filled [OF Cons.prems(2) \<open>st cbName = Some c\<close> lc upper] obtain ca where
          ca: "sa cbName = Some ca" "LatestConstrained ca (cs ! 0) = (lres, ca)"
            "sa(cbName \<mapsto> ca) = sa" "Name ca = Name c"
          by blast
        note goal = unfold [where s = sa, OF ca(1,2), unfolded ca(3,4)]
        show ?thesis
        proof (cases "\<exists>cbv. lres = Inr (Some cbv)")
          case False
          with run show ?thesis unfolding goal by (auto split: sum.splits option.splits)
        next
          case True
          then obtain cbv where lres: "lres = Inr (Some cbv)" by blast
          from run lres obtain rres st1 where
            out: "resolveDependencies fuel (st(cbName \<mapsto> c')) cbv cd_list = Some (rres, st1)"
            by (cases "resolveDependencies fuel (st(cbName \<mapsto> c')) cbv cd_list") auto
          show ?thesis
          proof (cases rres)
            case (Inl nerr)
            with run lres out have res: "res = Inl nerr" and st1: "st1 = st'" by simp_all
            have "resolveDependencies fuel sa cbv cd_list = Some (rres, sa)"
              using out upper Cons.prems(3) [folded st1] by (rule resolveDependencies_idem)
            with Inl res lres show ?thesis unfolding goal by simp
          next
            case (Inr cd_list')
            with run lres out
            have rest: "needed_cookbooks fuel st1 rest cd_list' = Some (res, st')" by simp
            have "store_fill st1 st'"
              using rest by (rule needed_cookbooks_frame)
            then have up1: "store_fill st1 sa"
              using Cons.prems(3) by (rule store_fill_trans)
            have "resolveDependencies fuel sa cbv cd_list = Some (rres, sa)"
              using out upper up1 by (rule resolveDependencies_idem)
            moreover have "needed_cookbooks fuel sa rest cd_list' = Some (res, sa)"
              using rest up1 Cons.prems(3) by (rule Cons.IH)
            ultimately show ?thesis
              using Inr lres unfolding goal by simp
          qed
        qed
      qed
    qed
  qed
qed

section \<open>Determinism and the shared store\<close>

lemmas abc_eval =
  abc_store_def bc_deps_def cb_deps_def resolve_eval cookbook_eval go_eval

lemma abc_resolution_bc:
  "map_option fst (DependsCookbooks (Suc (Suc (Suc 0))) (abc_store bc_deps) [''a''] []) =
     Some (Inr [(''a'', example_version ''a'' ''1.0.0'' bc_deps),
                (''b'', example_version ''b'' ''2.0.0'' []),
                (''c'', example_version ''c'' ''1.0.0'' [(''b'', JString ''= 1.0.0'')])])"
  by (simp add: abc_eval)

lemma abc_resolution_cb:
  "map_option fst (DependsCookbooks (Suc (Suc (Suc 0))) (abc_store cb_deps) [''a''] []) =
     Some (Inl (DepConflict ''a'' ''1.0.0'' ''b'' [] ''= 1.0.0''))"
  by (simp add: abc_eval)

lemma abc_resolution_cache:
  "map_option (\<lambda>out. map_option latest (snd out ''b''))
     (DependsCookbooks (Suc (Suc (Suc 0))) (abc_store bc_deps) [''a''] []) =
     Some (Some (Some (example_version ''b'' ''2.0.0'' [])))"
  by (simp add: abc_eval)

text \<open>
  C8, as the specification states it: two resolutions of the same run list against the
  same metadata return identical results, and resolution does not change the metadata it
  reads.  Both parts fail.  The dependency map of \<^verbatim>\<open>a\<close> holds \<^verbatim>\<open>b\<close> and \<^verbatim>\<open>c\<close>; Go
  iterates a map in an order that may differ from one run to the next.  Iterating \<^verbatim>\<open>b\<close>
  first gives a result, iterating \<^verbatim>\<open>c\<close> first gives a conflict error.  And the run
  writes the cached latest version of \<^verbatim>\<open>b\<close>, which was unset, into the shared cookbook.
\<close>

theorem DependsCookbooks_order_and_cache_counterexample:
  "map_of bc_deps = map_of cb_deps \<and>
   map_option fst (DependsCookbooks (Suc (Suc (Suc 0))) (abc_store bc_deps) [''a''] []) =
     Some (Inr [(''a'', example_version ''a'' ''1.0.0'' bc_deps),
                (''b'', example_version ''b'' ''2.0.0'' []),
                (''c'', example_version ''c'' ''1.0.0'' [(''b'', JString ''= 1.0.0'')])]) \<and>
   map_option fst (DependsCookbooks (Suc (Suc (Suc 0))) (abc_store cb_deps) [''a''] []) =
     Some (Inl (DepConflict ''a'' ''1.0.0'' ''b'' [] ''= 1.0.0'')) \<and>
   map_option latest (abc_store bc_deps ''b'') = Some None \<and>
   map_option (\<lambda>out. map_option latest (snd out ''b''))
     (DependsCookbooks (Suc (Suc (Suc 0))) (abc_store bc_deps) [''a''] []) =
     Some (Some (Some (example_version ''b'' ''2.0.0'' [])))"
proof -
  have "map_of bc_deps = map_of cb_deps"
    by (auto simp add: bc_deps_def cb_deps_def fun_eq_iff)
  moreover have "map_option latest (abc_store bc_deps ''b'') = Some None"
    by (simp add: abc_store_def example_cookbook_def)
  ultimately show ?thesis
    using abc_resolution_bc abc_resolution_cb abc_resolution_cache by simp
qed

text \<open>
  C8, amended: for a given order of iteration of the maps, resolution is repeatable, also
  against the store that it leaves behind: resolving again there returns the identical
  result and changes nothing.  What a resolution changes in the store is limited to
  setting unset latest-version caches to the newest version; names, version sets and
  versions stay as they are.
\<close>

theorem DependsCookbooks_repeatable:
  assumes "DependsCookbooks fuel st run_list env_constraints = Some (res, st')"
  shows "DependsCookbooks fuel st' run_list env_constraints = Some (res, st') \<and>
         store_fill st st'"
proof
  show fill: "store_fill st st'"
    using assms by (rule DependsCookbooks_frame)
  show "DependsCookbooks fuel st' run_list env_constraints = Some (res, st')"
  proof (cases "env_constraint_loop env_constraints (run_list_table run_list [])")
    case (Inl err)
    with assms show ?thesis by (simp add: DependsCookbooks_def)
  next
    case (Inr cd_list)
    with assms obtain r where
      run: "needed_cookbooks fuel st (run_list_ref run_list) cd_list = Some (r, st')"
      and res: "res = (case r of Inl err \<Rightarrow> Inl err | Inr cd_list' \<Rightarrow> final_pass st' cd_list' [])"
      by (auto simp add: DependsCookbooks_def split: option.splits sum.splits)
    have "needed_cookbooks fuel st' (run_list_ref run_list) cd_list = Some (r, st')"
      using run fill store_fill_refl by (rule needed_cookbooks_idem)
    with Inr res show ?thesis
      by (simp add: DependsCookbooks_def split: sum.splits)
  qed
qed

text \<open>C8, amended, on the same store, iterating the dependencies of \<^verbatim>\<open>a\<close> with \<^verbatim>\<open>b\<close> first.\<close>

theorem DependsCookbooks_repeatable_witness:
  "\<exists>res st'.
     DependsCookbooks (Suc (Suc (Suc 0))) (abc_store bc_deps) [''a''] [] = Some (res, st') \<and>
     res = Inr [(''a'', example_version ''a'' ''1.0.0'' bc_deps),
                (''b'', example_version ''b'' ''2.0.0'' []),
                (''c'', example_version ''c'' ''1.0.0'' [(''b'', JString ''= 1.0.0'')])] \<and>
     DependsCookbooks (Suc (Suc (Suc 0))) st' [''a''] [] = Some (res, st') \<and>
     store_fill (abc_store bc_deps) st'"
proof -
  from abc_resolution_bc obtain res st' where
    run: "DependsCookbooks (Suc (Suc (Suc 0))) (abc_store bc_deps) [''a''] [] = Some (res, st')"
    by (cases "DependsCookbooks (Suc (Suc (Suc 0))) (abc_store bc_deps) [''a''] []") auto
  with abc_resolution_bc have "res = Inr [(''a'', example_version ''a'' ''1.0.0'' bc_deps),
                (''b'', example_version ''b'' ''2.0.0'' []),
                (''c'', example_version ''c'' ''1.0.0'' [(''b'', JString ''= 1.0.0'')])]"
    by simp
  with run DependsCookbooks_repeatable [OF run] show ?thesis by blast
qed


end
